theory Spec2Isabelle
  imports Main "HOL-Library.Sublist"
begin

section \<open>QA discussion: the comment store (QAComments.js)\<close>

text \<open>
  A comment as the REST API delivers it. Ids are JavaScript numbers holding integers;
  \<open>parent_comment_id\<close> is \<open>null\<close> for a top-level comment.
\<close>

record comment =
  comment_id :: int
  parent_comment_id :: "int option"
  employee_id :: int
  employee_name :: string
  comment_text :: string
  comment_type :: string
  is_edited :: bool

record employee =
  emp_id :: int
  emp_name :: string

text \<open>The three text fields that \<open>handleTextChange\<close> serves: 'new', 'reply' and 'edit'.\<close>

datatype field = New | Reply | Edit

text \<open>The component state of \<open>QAComments\<close>, one field per \<open>useState\<close> hook.\<close>

record qa_comments =
  comments :: "comment list"
  loading :: bool
  error :: "string option"
  newComment :: string
  commentType :: string
  submitting :: bool
  editingCommentId :: "int option"
  editText :: string
  replyingToId :: "int option"
  replyText :: string
  showMentionSuggestions :: bool
  mentionSuggestions :: "employee list"
  mentionQuery :: string
  activeMentionField :: "field option"

definition initial_comments :: qa_comments where
  "initial_comments =
     \<lparr>comments = [], loading = True, error = None, newComment = [],
      commentType = ''General'', submitting = False, editingCommentId = None,
      editText = [], replyingToId = None, replyText = [],
      showMentionSuggestions = False, mentionSuggestions = [], mentionQuery = [],
      activeMentionField = None\<rparr>"

text \<open>
  The requests a handler sends through \<open>apiClient\<close>, and the way an awaited request
  ends: resolved with the response data, or rejected (network error, non-2xx).
\<close>

datatype request =
    GetComments
  | PatchComment int string
  | DeleteComment int
  | SearchEmployees string nat

datatype 'a response = Resolved 'a | Rejected

text \<open>
  \<open>String.prototype.trim\<close>. Strings are lists of 8-bit code units; the white space of
  that range is TAB, LF, VT, FF, CR, SPACE and NBSP.
\<close>

definition js_whitespace :: "char \<Rightarrow> bool" where
  "js_whitespace c \<longleftrightarrow> (of_char c :: nat) \<in> {9, 10, 11, 12, 13, 32, 160}"

definition trim :: "string \<Rightarrow> string" where
  "trim s = rev (dropWhile js_whitespace (rev (dropWhile js_whitespace s)))"

text \<open>
  \<open>handleEditComment\<close>: returns at once when the edit text is blank; otherwise sends
  the PATCH and, when it resolves, maps the list, putting the response data in the place
  of every comment with the edited id.
\<close>

definition handleEditComment ::
  "comment response \<Rightarrow> int \<Rightarrow> qa_comments \<Rightarrow> qa_comments \<times> request list" where
  "handleEditComment resp commentId s =
     (if trim (editText s) = [] then (s, [])
      else
        (case resp of
           Resolved data \<Rightarrow>
             (s\<lparr>comments := map (\<lambda>c. if comment_id c = commentId then data else c) (comments s),
                editingCommentId := None,
                editText := []\<rparr>,
              [PatchComment commentId (editText s)])
         | Rejected \<Rightarrow>
             (s\<lparr>error := Some ''Failed to update comment''\<rparr>,
              [PatchComment commentId (editText s)])))"

text \<open>
  \<open>handleDeleteComment\<close>: \<open>confirmed\<close> is the answer of \<open>window.confirm\<close>. When the
  DELETE resolves the list is filtered by id.
\<close>

definition handleDeleteComment ::
  "bool \<Rightarrow> unit response \<Rightarrow> int \<Rightarrow> qa_comments \<Rightarrow> qa_comments \<times> request list" where
  "handleDeleteComment confirmed resp commentId s =
     (if \<not> confirmed then (s, [])
      else
        (case resp of
           Resolved _ \<Rightarrow>
             (s\<lparr>comments := filter (\<lambda>c. comment_id c \<noteq> commentId) (comments s)\<rparr>,
              [DeleteComment commentId])
         | Rejected \<Rightarrow>
             (s\<lparr>error := Some ''Failed to delete comment''\<rparr>, [DeleteComment commentId])))"

subsection \<open>Mention detection\<close>

text \<open>\<open>String.prototype.lastIndexOf\<close> for one character: a left-to-right scan, -1 when absent.\<close>

primrec lastIndexOf_from :: "char \<Rightarrow> string \<Rightarrow> nat \<Rightarrow> int \<Rightarrow> int" where
  "lastIndexOf_from ch [] i found = found"
| "lastIndexOf_from ch (c # cs) i found =
     lastIndexOf_from ch cs (Suc i) (if c = ch then int i else found)"

definition lastIndexOf :: "string \<Rightarrow> char \<Rightarrow> int" where
  "lastIndexOf text ch = lastIndexOf_from ch text 0 (- 1)"

text \<open>\<open>text.slice(start)\<close> for a start that is not negative.\<close>

definition slice :: "string \<Rightarrow> int \<Rightarrow> string" where
  "slice text start = drop (nat start) text"

text \<open>
  \<open>searchEmployees\<close>, the part that runs before the request is awaited: an empty query
  closes the popup and sends nothing, any other query is sent with limit 10.
\<close>

definition searchEmployees :: "string \<Rightarrow> qa_comments \<Rightarrow> qa_comments \<times> request list" where
  "searchEmployees query s =
     (if query = [] then (s\<lparr>showMentionSuggestions := False\<rparr>, [])
      else (s, [SearchEmployees query 10]))"

definition searchEmployees_resolved :: "employee list response \<Rightarrow> qa_comments \<Rightarrow> qa_comments" where
  "searchEmployees_resolved resp s =
     (case resp of
        Resolved employees \<Rightarrow>
          s\<lparr>mentionSuggestions := employees, showMentionSuggestions := (employees \<noteq> [])\<rparr>
      | Rejected \<Rightarrow> s)"

definition set_text :: "field \<Rightarrow> string \<Rightarrow> qa_comments \<Rightarrow> qa_comments" where
  "set_text fld text s =
     (case fld of
        New \<Rightarrow> s\<lparr>newComment := text\<rparr>
      | Reply \<Rightarrow> s\<lparr>replyText := text\<rparr>
      | Edit \<Rightarrow> s\<lparr>editText := text\<rparr>)"

definition handleTextChange :: "string \<Rightarrow> field \<Rightarrow> qa_comments \<Rightarrow> qa_comments \<times> request list" where
  "handleTextChange text fld s =
     (let s1 = set_text fld text s;
          lastAtIndex = lastIndexOf text (CHR ''@'')
      in if lastAtIndex \<noteq> - 1 then
           (let afterAt = slice text (lastAtIndex + 1)
            in if CHR '' '' \<notin> set afterAt \<and> length afterAt > 0 then
                 searchEmployees afterAt
                   (s1\<lparr>mentionQuery := afterAt, activeMentionField := Some fld\<rparr>)
               else (s1\<lparr>showMentionSuggestions := False\<rparr>, []))
         else (s1\<lparr>showMentionSuggestions := False\<rparr>, []))"

text \<open>
  The trigger rule in the words of the specification, for comparison: the text after the
  last \<open>@\<close> is the query when it is not empty and holds no white space.
\<close>

definition spec_mention_query :: "string \<Rightarrow> string option" where
  "spec_mention_query text =
     (if CHR ''@'' \<in> set text then
        (let q = rev (takeWhile (\<lambda>c. c \<noteq> CHR ''@'') (rev text))
         in if q \<noteq> [] \<and> \<not> list_ex js_whitespace q then Some q else None)
      else None)"

subsection \<open>Sample data\<close>

text \<open>A comment with the given id, parent and text, the other fields fixed.\<close>

definition mk_comment :: "int \<Rightarrow> int option \<Rightarrow> string \<Rightarrow> comment" where
  "mk_comment i p t =
     \<lparr>comment_id = i, parent_comment_id = p, employee_id = 7, employee_name = ''Ann'',
      comment_text = t, comment_type = ''General'', is_edited = False\<rparr>"

definition edit_example :: qa_comments where
  "edit_example =
     initial_comments\<lparr>comments := [mk_comment 1 None ''a'', mk_comment 2 (Some 1) ''b'', mk_comment 3 None ''c''],
       editingCommentId := Some 2, editText := ''b, fixed''\<rparr>"

section \<open>The QA workflow panel (QASection.js)\<close>

text \<open>
  The QA record of an amendment, as \<open>qaData\<close> holds it. Dates are ISO strings or
  \<open>null\<close>; the assignee and the overall result may be \<open>null\<close>.
\<close>

record qa_data =
  qa_status :: string
  qa_assigned_id :: "int option"
  qa_assigned_date :: "string option"
  qa_started_date :: "string option"
  qa_test_plan_check :: bool
  qa_test_release_notes_check :: bool
  qa_completed :: bool
  qa_signature :: string
  qa_completed_date :: "string option"
  qa_notes :: string
  qa_test_plan_link :: string
  qa_blocked_reason :: string
  qa_overall_result :: "string option"

text \<open>The state of the panel that the handlers below touch.\<close>

record qa_section =
  qaData :: qa_data
  showAssignModal :: bool
  showNotesModal :: bool

text \<open>
  What one run of a handler does, in the order it happens: the component state once the
  synchronous part has run (what the user sees while the request is pending), the body
  given to \<open>amendmentAPI.updateQA\<close>, the value handed to the parent's \<open>onUpdate\<close>
  when the request resolved, and the component state once the request has resolved or
  been rejected.
\<close>

record qa_run =
  optimistic :: qa_section
  payload :: qa_data
  notified :: "qa_data option"
  settled :: qa_section

text \<open>JavaScript truthiness of a value that is a string or \<open>null\<close>.\<close>

definition truthy :: "string option \<Rightarrow> bool" where
  "truthy v = (case v of None \<Rightarrow> False | Some t \<Rightarrow> t \<noteq> [])"

text \<open>
  \<open>handleStatusChange\<close>; \<open>now\<close> is the value of \<open>new Date().toISOString()\<close>.
  \<open>status_updates\<close> is the \<open>updates\<close> object as it stands at \<open>setQaData(updates)\<close>.
\<close>

definition status_updates :: "string \<Rightarrow> string \<Rightarrow> qa_data \<Rightarrow> qa_data" where
  "status_updates now newStatus d =
     (let updates = d\<lparr>qa_status := newStatus\<rparr>;
          updates = (if newStatus = ''In Testing'' \<and> \<not> truthy (qa_started_date d)
                     then updates\<lparr>qa_started_date := Some now\<rparr> else updates);
          updates = (if newStatus = ''Passed'' \<or> newStatus = ''Failed''
                     then updates\<lparr>qa_completed := True, qa_completed_date := Some now\<rparr>
                     else updates)
      in updates)"

definition handleStatusChange :: "string \<Rightarrow> unit response \<Rightarrow> string \<Rightarrow> qa_section \<Rightarrow> qa_run" where
  "handleStatusChange now resp newStatus s =
     (let prevData = qaData s;
          updates = status_updates now newStatus (qaData s);
          s1 = s\<lparr>qaData := updates\<rparr>
      in (case resp of
            Resolved _ \<Rightarrow>
              \<lparr>optimistic = s1, payload = updates, notified = Some updates, settled = s1\<rparr>
          | Rejected \<Rightarrow>
              \<lparr>optimistic = s1, payload = updates, notified = None,
               settled = s1\<lparr>qaData := prevData\<rparr>\<rparr>))"

definition handleAssign :: "string \<Rightarrow> unit response \<Rightarrow> int \<Rightarrow> qa_section \<Rightarrow> qa_run" where
  "handleAssign now resp employeeId s =
     (let prevData = qaData s;
          updates = (qaData s)
            \<lparr>qa_assigned_id := Some employeeId,
             qa_assigned_date := Some now,
             qa_status := (if qa_status (qaData s) = ''Not Started'' then ''Assigned''
                           else qa_status (qaData s))\<rparr>;
          s1 = s\<lparr>qaData := updates, showAssignModal := False\<rparr>
      in (case resp of
            Resolved _ \<Rightarrow>
              \<lparr>optimistic = s1, payload = updates, notified = Some updates, settled = s1\<rparr>
          | Rejected \<Rightarrow>
              \<lparr>optimistic = s1, payload = updates, notified = None,
               settled = s1\<lparr>qaData := prevData\<rparr>\<rparr>))"

text \<open>The two checklist fields that \<open>handleChecklistChange\<close> is called with.\<close>

datatype checklist_field = Qa_test_plan_check | Qa_test_release_notes_check

definition handleChecklistChange :: "unit response \<Rightarrow> checklist_field \<Rightarrow> qa_section \<Rightarrow> qa_run" where
  "handleChecklistChange resp fld s =
     (let prevData = qaData s;
          updates = (case fld of
                       Qa_test_plan_check \<Rightarrow>
                         (qaData s)\<lparr>qa_test_plan_check := \<not> qa_test_plan_check (qaData s)\<rparr>
                     | Qa_test_release_notes_check \<Rightarrow>
                         (qaData s)\<lparr>qa_test_release_notes_check :=
                                      \<not> qa_test_release_notes_check (qaData s)\<rparr>);
          s1 = s\<lparr>qaData := updates\<rparr>
      in (case resp of
            Resolved _ \<Rightarrow>
              \<lparr>optimistic = s1, payload = updates, notified = Some updates, settled = s1\<rparr>
          | Rejected \<Rightarrow>
              \<lparr>optimistic = s1, payload = updates, notified = None,
               settled = s1\<lparr>qaData := prevData\<rparr>\<rparr>))"

definition handleOverallResultChange :: "unit response \<Rightarrow> string option \<Rightarrow> qa_section \<Rightarrow> qa_run" where
  "handleOverallResultChange resp result s =
     (let prevData = qaData s;
          updates = (qaData s)\<lparr>qa_overall_result := result\<rparr>;
          s1 = s\<lparr>qaData := updates\<rparr>
      in (case resp of
            Resolved _ \<Rightarrow>
              \<lparr>optimistic = s1, payload = updates, notified = Some updates, settled = s1\<rparr>
          | Rejected \<Rightarrow>
              \<lparr>optimistic = s1, payload = updates, notified = None,
               settled = s1\<lparr>qaData := prevData\<rparr>\<rparr>))"

text \<open>
  Notes take another path. The text area of the notes dialog writes every change into
  \<open>qaData\<close> (\<open>notes_onChange\<close>); \<open>handleSaveNotes\<close> closes the dialog and sends the
  record as it stands. It captures nothing, and its \<open>catch\<close> only logs.
\<close>

definition notes_onChange :: "string \<Rightarrow> qa_section \<Rightarrow> qa_section" where
  "notes_onChange text s = s\<lparr>qaData := (qaData s)\<lparr>qa_notes := text\<rparr>\<rparr>"

definition handleSaveNotes :: "unit response \<Rightarrow> qa_section \<Rightarrow> qa_run" where
  "handleSaveNotes resp s =
     (let s1 = s\<lparr>showNotesModal := False\<rparr>
      in (case resp of
            Resolved _ \<Rightarrow>
              \<lparr>optimistic = s1, payload = qaData s, notified = Some (qaData s), settled = s1\<rparr>
          | Rejected \<Rightarrow>
              \<lparr>optimistic = s1, payload = qaData s, notified = None, settled = s1\<rparr>))"

definition qa_example :: qa_section where
  "qa_example =
     \<lparr>qaData =
        \<lparr>qa_status = ''In Testing'', qa_assigned_id = Some 4,
         qa_assigned_date = Some ''2025-01-10T09:00:00.000Z'',
         qa_started_date = Some ''2025-01-11T09:00:00.000Z'',
         qa_test_plan_check = True, qa_test_release_notes_check = False,
         qa_completed = False, qa_signature = [], qa_completed_date = None,
         qa_notes = [], qa_test_plan_link = [], qa_blocked_reason = [],
         qa_overall_result = None\<rparr>,
      showAssignModal = False, showNotesModal = False\<rparr>"

section \<open>Reactions of one comment (CommentReactions)\<close>

text \<open>
  The state of one mounted \<open>CommentReactions\<close> component: the emoji counts, the picker
  flag, the current user's own emojis, and the \<open>loading\<close> flag (named \<open>toggling\<close>
  here, \<open>loading\<close> being a field of the comment list's state already).
\<close>

record reactions =
  reaction_counts :: "(string \<times> nat) list"
  showPicker :: bool
  userReactions :: "string list"
  toggling :: bool

definition initial_reactions :: "(string \<times> nat) list \<Rightarrow> reactions" where
  "initial_reactions initialReactions =
     \<lparr>reaction_counts = initialReactions, showPicker = False, userReactions = [],
      toggling = False\<rparr>"

text \<open>
  \<open>loadReactions\<close> catches its own failures: both GETs answered, only the summary
  answered, or neither.
\<close>

datatype load_result =
    Loaded "(string \<times> nat) list" "string list"
  | SummaryOnly "(string \<times> nat) list"
  | LoadFailed

definition loadReactions :: "load_result \<Rightarrow> reactions \<Rightarrow> reactions" where
  "loadReactions res s =
     (case res of
        Loaded summary mine \<Rightarrow> s\<lparr>reaction_counts := summary, userReactions := mine\<rparr>
      | SummaryOnly summary \<Rightarrow> s\<lparr>reaction_counts := summary\<rparr>
      | LoadFailed \<Rightarrow> s)"

text \<open>
  \<open>toggleReaction\<close> up to its first \<open>await\<close>: nothing happens while \<open>loading\<close> is
  set; otherwise the flag is set and the POST for the emoji goes out. The result lists
  the emojis posted (one or none).
\<close>

definition toggleReaction :: "string \<Rightarrow> reactions \<Rightarrow> reactions \<times> string list" where
  "toggleReaction emoji s =
     (if toggling s then (s, [])
      else (s\<lparr>toggling := True\<rparr>, [emoji]))"

text \<open>
  The rest of \<open>toggleReaction\<close>, run when the POST has been answered: on success the
  reactions are reloaded and the picker closed; \<open>finally\<close> clears the flag either way.
\<close>

datatype toggle_outcome = Posted load_result | PostFailed

definition toggleReaction_settled :: "toggle_outcome \<Rightarrow> reactions \<Rightarrow> reactions" where
  "toggleReaction_settled outcome s =
     (case outcome of
        Posted res \<Rightarrow> (loadReactions res s)\<lparr>showPicker := False, toggling := False\<rparr>
      | PostFailed \<Rightarrow> s\<lparr>toggling := False\<rparr>)"

text \<open>
  The reaction widgets inside the comment thread. \<open>ThreadedComment\<close> is declared in
  the body of \<open>QAComments\<close>, so every render of \<open>QAComments\<close> (a keystroke in a
  text field, the 30 second poll) makes it a new component type, and React unmounts the
  \<open>CommentReactions\<close> below it and mounts new ones, whose state starts afresh. The
  model counts the renders (\<open>generation\<close>), holds the state of the component now mounted
  for each comment, the \<open>initialReactions\<close> it is mounted with, and the toggle POSTs
  sent and not yet answered, each with the comment id and the generation of the component
  that sent it.
\<close>

record reaction_widgets =
  widget :: "int \<Rightarrow> reactions"
  reaction_summary :: "int \<Rightarrow> (string \<times> nat) list"
  generation :: nat
  pending :: "(int \<times> nat) list"

text \<open>
  The events: a click on an emoji of a comment; the answer to the toggle POST that the
  component of a generation sent; the answer to the load that a component starts when it
  is mounted; a render of \<open>QAComments\<close>.
\<close>

datatype reaction_event =
    Click int string
  | Answer int nat toggle_outcome
  | Loaded int nat load_result
  | Render

definition initial_widgets :: reaction_widgets where
  "initial_widgets =
     \<lparr>widget = (\<lambda>_. initial_reactions []), reaction_summary = (\<lambda>_. []),
      generation = 0, pending = []\<rparr>"

text \<open>
  A click runs \<open>toggleReaction\<close> on the mounted component of the comment. An answer
  ends a pending request; the rest of the handler then sets state, which reaches the
  component only when the one that sent the request is still mounted (setting state on
  an unmounted component does nothing). A render mounts new components for all comments.
\<close>

definition widgets_step :: "reaction_widgets \<Rightarrow> reaction_event \<Rightarrow> reaction_widgets" where
  "widgets_step w ev =
     (case ev of
        Click commentId emoji \<Rightarrow>
          (case toggleReaction emoji (widget w commentId) of
             (s', posted) \<Rightarrow>
               w\<lparr>widget := (widget w)(commentId := s'),
                 pending := pending w @ map (\<lambda>e. (commentId, generation w)) posted\<rparr>)
      | Answer commentId g outcome \<Rightarrow>
          (if (commentId, g) \<in> set (pending w) then
             w\<lparr>widget :=
                 (if g = generation w
                  then (widget w)(commentId := toggleReaction_settled outcome (widget w commentId))
                  else widget w),
               pending := remove1 (commentId, g) (pending w)\<rparr>
           else w)
      | Loaded commentId g res \<Rightarrow>
          (if g = generation w
           then w\<lparr>widget := (widget w)(commentId := loadReactions res (widget w commentId))\<rparr>
           else w)
      | Render \<Rightarrow>
          w\<lparr>widget := (\<lambda>c. initial_reactions (reaction_summary w c)),
            generation := Suc (generation w)\<rparr>)"

definition widgets_run :: "reaction_event list \<Rightarrow> reaction_widgets" where
  "widgets_run events = foldl widgets_step initial_widgets events"

text \<open>The toggle requests of a comment that are in flight.\<close>

definition in_flight :: "reaction_widgets \<Rightarrow> int \<Rightarrow> nat" where
  "in_flight w c = length (filter (\<lambda>p. fst p = c) (pending w))"

text \<open>
  The guard's invariant: of the requests that the mounted component of a comment sent,
  one is pending exactly while the component's flag is set; every other pending request
  is of an earlier generation.
\<close>

definition guard_inv :: "reaction_widgets \<Rightarrow> bool" where
  "guard_inv w \<longleftrightarrow>
     (\<forall>p\<in>set (pending w). snd p \<le> generation w)
     \<and> (\<forall>c. filter (\<lambda>p. p = (c, generation w)) (pending w)
              = (if toggling (widget w c) then [(c, generation w)] else []))"

section \<open>The tree builder (buildCommentTree in QAComments.js)\<close>

text \<open>
  \<open>buildCommentTree\<close> clones every comment into a node object and then pushes node
  references into the \<open>replies\<close> arrays of other nodes. Nodes are shared and mutated, so
  objects live in a heap, a list indexed by address; a new object goes to the end of the
  list. An object has the comment's own properties and, when it is a node, the
  \<open>replies\<close> array, which holds addresses of nodes.
\<close>

type_synonym addr = nat

record obj =
  props :: comment
  replies :: "addr list option"

type_synonym heap = "obj list"

datatype js_error = TypeError | UndefinedNode

record build_state =
  heap :: heap
  commentMap :: "int \<rightharpoonup> addr"
  rootComments :: "addr list"

text \<open>
  Reading a property of an array element: a \<open>TypeError\<close> when the element is no object.
\<close>

definition deref :: "heap \<Rightarrow> addr \<Rightarrow> js_error + obj" where
  "deref h a = (if a < length h then Inr (h ! a) else Inl TypeError)"

text \<open>\<open>Array.prototype.forEach\<close> with a callback that may throw.\<close>

fun forEach :: "(addr \<Rightarrow> 's \<Rightarrow> js_error + 's) \<Rightarrow> addr list \<Rightarrow> 's \<Rightarrow> js_error + 's" where
  "forEach f [] s = Inr s"
| "forEach f (a # as) s = (case f a s of Inl e \<Rightarrow> Inl e | Inr s' \<Rightarrow> forEach f as s')"

text \<open>
  First pass, the callback: \<open>commentMap[comment.comment_id] = { ...comment, replies: [] }\<close>.
  The clone is a new object; a later comment with the same id takes the map entry over.
\<close>

definition register_comment :: "addr \<Rightarrow> build_state \<Rightarrow> js_error + build_state" where
  "register_comment a s =
     (case deref (heap s) a of
        Inl e \<Rightarrow> Inl e
      | Inr comment \<Rightarrow>
          Inr (s\<lparr>heap := heap s @ [comment\<lparr>replies := Some []\<rparr>],
                 commentMap := (commentMap s)(comment_id (props comment) \<mapsto> length (heap s))\<rparr>))"

text \<open>
  The test \<open>if (comment.parent_comment_id)\<close> is a truthiness test: \<open>null\<close> and \<open>0\<close>
  both fail it. \<open>reply_parent\<close> is the parent id when the test passes.
\<close>

definition reply_parent :: "comment \<Rightarrow> int option" where
  "reply_parent c =
     (case parent_comment_id c of
        None \<Rightarrow> None
      | Some p \<Rightarrow> if p = 0 then None else Some p)"

text \<open>
  Second pass, the callback. A reply whose parent id is in the map is pushed onto the
  parent node's \<open>replies\<close>; a reply whose parent id is not in the map falls through
  the \<open>if (parent)\<close> and is pushed nowhere; a comment that is no reply is pushed onto
  \<open>rootComments\<close>. The node pushed is \<open>commentMap[comment.comment_id]\<close>; were that
  entry missing, \<open>undefined\<close> would enter the tree, which the model reports as
  \<open>UndefinedNode\<close> (the first pass has registered every id, so it never happens).
\<close>

definition attach_comment :: "addr \<Rightarrow> build_state \<Rightarrow> js_error + build_state" where
  "attach_comment a s =
     (case deref (heap s) a of
        Inl e \<Rightarrow> Inl e
      | Inr comment \<Rightarrow>
          (case reply_parent (props comment) of
             Some pid \<Rightarrow>
               (case commentMap s pid of
                  Some parent \<Rightarrow>
                    (case commentMap s (comment_id (props comment)) of
                       None \<Rightarrow> Inl UndefinedNode
                     | Some node \<Rightarrow>
                         (case deref (heap s) parent of
                            Inl e \<Rightarrow> Inl e
                          | Inr p \<Rightarrow>
                              (case replies p of
                                 None \<Rightarrow> Inl TypeError
                               | Some rs \<Rightarrow>
                                   Inr (s\<lparr>heap := (heap s)[parent := p\<lparr>replies := Some (rs @ [node])\<rparr>]\<rparr>))))
                | None \<Rightarrow> Inr s)
           | None \<Rightarrow>
               (case commentMap s (comment_id (props comment)) of
                  None \<Rightarrow> Inl UndefinedNode
                | Some node \<Rightarrow> Inr (s\<lparr>rootComments := rootComments s @ [node]\<rparr>))))"

text \<open>
  \<open>buildCommentTree\<close> on the heap \<open>h\<close> and its argument, the array of addresses of
  comment objects (\<open>commentList\<close> here, \<open>comments\<close> being a field of the component state). The source returns \<open>rootComments\<close>; the nodes it refers to are in the
  heap of the final state.
\<close>

definition buildCommentTree :: "heap \<Rightarrow> addr list \<Rightarrow> js_error + build_state" where
  "buildCommentTree h commentList =
     (case forEach register_comment commentList
             \<lparr>heap = h, commentMap = Map.empty, rootComments = []\<rparr> of
        Inl e \<Rightarrow> Inl e
      | Inr s \<Rightarrow> forEach attach_comment commentList s)"

text \<open>
  The component's \<open>comments\<close> state as heap and array: one object per comment, without
  a \<open>replies\<close> property, the array holding them in order.
\<close>

definition input_heap :: "comment list \<Rightarrow> heap" where
  "input_heap cs = map (\<lambda>c. \<lparr>props = c, replies = None\<rparr>) cs"

definition input_array :: "comment list \<Rightarrow> addr list" where
  "input_array cs = [0..<length cs]"

text \<open>
  The forest below a list of node addresses, as a value. The unfolding follows the
  \<open>replies\<close> arrays and takes fuel, since a heap may hold a cycle; \<open>None\<close> means that
  the fuel ran out.
\<close>

datatype comment_node = CommentNode comment "comment_node list"

fun node_tree :: "nat \<Rightarrow> heap \<Rightarrow> addr \<Rightarrow> comment_node option" where
  "node_tree 0 h a = None"
| "node_tree (Suc fuel) h a =
     (case replies (h ! a) of
        None \<Rightarrow> Some (CommentNode (props (h ! a)) [])
      | Some rs \<Rightarrow> map_option (CommentNode (props (h ! a))) (those (map (node_tree fuel h) rs)))"

definition comment_forest :: "comment list \<Rightarrow> comment_node list option" where
  "comment_forest cs =
     (case buildCommentTree (input_heap cs) (input_array cs) of
        Inl e \<Rightarrow> None
      | Inr s \<Rightarrow> those (map (node_tree (Suc (length cs)) (heap s)) (rootComments s)))"

subsection \<open>Rendering the thread\<close>

text \<open>
  \<open>ThreadedComment\<close> renders a node at a depth and, inside it, every reply at the next
  depth (the left margin is 30px times the depth). The recursion is the component's own;
  it has no depth test. The model spends one unit of fuel per level, and \<open>None\<close> means
  that the fuel did not suffice.
\<close>

datatype element = QaComment comment nat "element list"

fun ThreadedComment :: "nat \<Rightarrow> heap \<Rightarrow> addr \<Rightarrow> nat \<Rightarrow> element option" where
  "ThreadedComment 0 h comment depth = None"
| "ThreadedComment (Suc fuel) h comment depth =
     (case replies (h ! comment) of
        None \<Rightarrow> Some (QaComment (props (h ! comment)) depth [])
      | Some rs \<Rightarrow>
          map_option (QaComment (props (h ! comment)) depth)
            (those (map (\<lambda>reply. ThreadedComment fuel h reply (depth + 1)) rs)))"

text \<open>\<open>threadedComments.map\<close> in the component body: every root at depth 0.\<close>

definition render_thread :: "nat \<Rightarrow> heap \<Rightarrow> addr list \<Rightarrow> element list option" where
  "render_thread fuel h threadedComments =
     those (map (\<lambda>comment. ThreadedComment fuel h comment 0) threadedComments)"

definition render_comments :: "nat \<Rightarrow> comment list \<Rightarrow> element list option" where
  "render_comments fuel cs =
     (case buildCommentTree (input_heap cs) (input_array cs) of
        Inl e \<Rightarrow> None
      | Inr s \<Rightarrow> render_thread fuel (heap s) (rootComments s))"



subsection \<open>The result of the two passes in closed form\<close>

text \<open>
  Auxiliary notions for the proofs: what the first pass leaves behind
  (\<open>registered_state\<close>), and what the second pass adds to it (\<open>attached\<close>): for every
  node the replies pushed onto it, and the roots, both in the order of the array.
\<close>

text \<open>The clone that the first pass makes of an object, and the comment id of an object.\<close>

definition clone :: "obj \<Rightarrow> obj" where
  "clone ob = ob\<lparr>replies := Some []\<rparr>"

definition id_at :: "heap \<Rightarrow> addr \<Rightarrow> int" where
  "id_at h a = comment_id (props (h ! a))"

text \<open>
  The entries that the first pass writes into \<open>commentMap\<close>, the latest first: the
  id of the \<open>i\<close>-th element with the address of its clone, \<open>length h + i\<close>.
\<close>

definition registered :: "heap \<Rightarrow> addr list \<Rightarrow> (int \<times> addr) list" where
  "registered h as = rev (zip (map (id_at h) as) [length h..<length h + length as])"

text \<open>
  What the second pass reads for the array element \<open>a\<close>: its own node, and the node of
  its parent when it is a reply whose parent id is in the map (\<open>target\<close>). Then the nodes
  pushed onto the object at \<open>p\<close> by the elements \<open>bs\<close>, and the roots they add.
\<close>

definition node_at :: "(int \<rightharpoonup> addr) \<Rightarrow> heap \<Rightarrow> addr \<Rightarrow> addr" where
  "node_at m h a = the (m (id_at h a))"

definition target :: "(int \<rightharpoonup> addr) \<Rightarrow> heap \<Rightarrow> addr \<Rightarrow> addr option" where
  "target m h a = (case reply_parent (props (h ! a)) of None \<Rightarrow> None | Some pid \<Rightarrow> m pid)"

definition children :: "(int \<rightharpoonup> addr) \<Rightarrow> heap \<Rightarrow> addr list \<Rightarrow> addr \<Rightarrow> addr list" where
  "children m h bs p = map (node_at m h) (filter (\<lambda>a. target m h a = Some p) bs)"

definition new_roots :: "(int \<rightharpoonup> addr) \<Rightarrow> heap \<Rightarrow> addr list \<Rightarrow> addr list" where
  "new_roots m h bs = map (node_at m h) (filter (\<lambda>a. reply_parent (props (h ! a)) = None) bs)"

definition add_replies :: "addr list \<Rightarrow> obj \<Rightarrow> obj" where
  "add_replies ch ob = (case replies ob of None \<Rightarrow> ob | Some rs \<Rightarrow> ob\<lparr>replies := Some (rs @ ch)\<rparr>)"

definition attached :: "build_state \<Rightarrow> addr list \<Rightarrow> build_state" where
  "attached s bs =
     s\<lparr>heap := map (\<lambda>p. add_replies (children (commentMap s) (heap s) bs p) (heap s ! p))
                [0..<length (heap s)],
       rootComments := rootComments s @ new_roots (commentMap s) (heap s) bs\<rparr>"

text \<open>
  What the second pass relies on: the elements still to be visited are objects below
  \<open>n0\<close> with a registered id, and every address in \<open>commentMap\<close> is that of a node
  at \<open>n0\<close> or above.
\<close>

definition attach_ready :: "nat \<Rightarrow> addr list \<Rightarrow> build_state \<Rightarrow> bool" where
  "attach_ready n0 bs s \<longleftrightarrow>
     (\<forall>a\<in>set bs. a < n0 \<and> commentMap s (id_at (heap s) a) \<noteq> None)
     \<and> n0 \<le> length (heap s)
     \<and> (\<forall>k n. commentMap s k = Some n \<longrightarrow>
            n0 \<le> n \<and> n < length (heap s) \<and> replies (heap s ! n) \<noteq> None)"

text \<open>The state after the first pass, the run on a comment list, and sample lists.\<close>

definition registered_state :: "heap \<Rightarrow> addr list \<Rightarrow> build_state" where
  "registered_state h as =
     \<lparr>heap = h @ map (\<lambda>a. clone (h ! a)) as, commentMap = map_of (registered h as),
      rootComments = []\<rparr>"

text \<open>
  For a comment list: the positions of the comments that are no replies, and of the
  replies to the id \<open>k\<close>, in list order.
\<close>

definition root_positions :: "comment list \<Rightarrow> nat list" where
  "root_positions cs = filter (\<lambda>j. reply_parent (cs ! j) = None) (input_array cs)"

definition reply_positions :: "comment list \<Rightarrow> int \<Rightarrow> nat list" where
  "reply_positions cs k = filter (\<lambda>j. reply_parent (cs ! j) = Some k) (input_array cs)"

definition built :: "comment list \<Rightarrow> build_state" where
  "built cs = attached (registered_state (input_heap cs) (input_array cs)) (input_array cs)"

definition thread_example :: "comment list" where
  "thread_example =
     [mk_comment 1 None ''first'', mk_comment 2 (Some 1) ''reply'',
      mk_comment 3 None ''second'', mk_comment 4 (Some 2) ''reply to reply'']"

definition orphan_example :: "comment list" where
  "orphan_example = [mk_comment 1 None ''first'', mk_comment 2 (Some 99) ''reply to a deleted comment'']"



definition duplicate_example :: "comment list" where
  "duplicate_example = [mk_comment 1 None ''a'', mk_comment 1 (Some 1) ''b'']"

section \<open>Properties of the comment store\<close>

lemma lastIndexOf_from_absent:
  "ch \<notin> set cs \<Longrightarrow> lastIndexOf_from ch cs i found = found"
  by (induction cs arbitrary: i found) auto

lemma lastIndexOf_from_split:
  "ch \<notin> set q \<Longrightarrow> lastIndexOf_from ch (pre @ ch # q) i found = int (i + length pre)"
  by (induction pre arbitrary: i found) (auto simp: lastIndexOf_from_absent)

lemma lastIndexOf_absent: "ch \<notin> set text \<Longrightarrow> lastIndexOf text ch = - 1"
  by (simp add: lastIndexOf_def lastIndexOf_from_absent)

lemma lastIndexOf_split:
  "ch \<notin> set q \<Longrightarrow> lastIndexOf (pre @ ch # q) ch = int (length pre)"
  by (simp add: lastIndexOf_def lastIndexOf_from_split)

lemma slice_after_last:
  "ch \<notin> set q \<Longrightarrow> slice (pre @ ch # q) (lastIndexOf (pre @ ch # q) ch + 1) = q"
  by (simp add: lastIndexOf_split slice_def nat_add_distrib)

lemma map_replace_unique:
  assumes "comment_id c = k"
    and "\<forall>x\<in>set xs. comment_id x \<noteq> k" and "\<forall>y\<in>set ys. comment_id y \<noteq> k"
  shows "map (\<lambda>c. if comment_id c = k then d else c) (xs @ c # ys) = xs @ d # ys"
proof -
  have "map (\<lambda>c. if comment_id c = k then d else c) xs = xs"
    using assms(2) by (intro map_idI) simp
  moreover have "map (\<lambda>c. if comment_id c = k then d else c) ys = ys"
    using assms(3) by (intro map_idI) simp
  ultimately show ?thesis using assms(1) by simp
qed

lemma filter_remove_unique:
  assumes "comment_id c = k"
    and "\<forall>x\<in>set xs. comment_id x \<noteq> k" and "\<forall>y\<in>set ys. comment_id y \<noteq> k"
  shows "filter (\<lambda>c. comment_id c \<noteq> k) (xs @ c # ys) = xs @ ys"
  using assms by (simp add: filter_id_conv)

lemma distinct_ids_split:
  assumes "distinct (map comment_id (xs @ c # ys))"
  shows "(\<forall>x\<in>set xs. comment_id x \<noteq> comment_id c) \<and> (\<forall>y\<in>set ys. comment_id y \<noteq> comment_id c)"
  using assms by (auto simp: image_iff)

lemma handleTextChange_with_at:
  assumes "CHR ''@'' \<notin> set q"
  shows "handleTextChange (pre @ CHR ''@'' # q) fld s =
     (if q \<noteq> [] \<and> CHR '' '' \<notin> set q
      then ((set_text fld (pre @ CHR ''@'' # q) s)\<lparr>mentionQuery := q, activeMentionField := Some fld\<rparr>,
            [SearchEmployees q 10])
      else ((set_text fld (pre @ CHR ''@'' # q) s)\<lparr>showMentionSuggestions := False\<rparr>, []))"
  using assms slice_after_last[OF assms, of pre] lastIndexOf_split[OF assms, of pre]
  by (auto simp: handleTextChange_def Let_def searchEmployees_def)

lemma handleTextChange_without_at:
  assumes "CHR ''@'' \<notin> set text"
  shows "handleTextChange text fld s = ((set_text fld text s)\<lparr>showMentionSuggestions := False\<rparr>, [])"
  using lastIndexOf_absent[OF assms]
  by (auto simp: handleTextChange_def Let_def searchEmployees_def)

lemma set_text_mention [simp]:
  "showMentionSuggestions (set_text fld text s) = showMentionSuggestions s"
  "mentionQuery (set_text fld text s) = mentionQuery s"
  "activeMentionField (set_text fld text s) = activeMentionField s"
  by (cases fld; simp add: set_text_def)+

lemma handleTextChange_examples:
  "snd (handleTextChange ''hello @jo'' fld s) = [SearchEmployees ''jo'' 10]"
  "mentionQuery (fst (handleTextChange ''hello @jo'' fld s)) = ''jo''"
  "snd (handleTextChange ''hello @jo smith'' fld s) = []"
  "snd (handleTextChange ''@'' fld s) = []"
  by (simp_all add: handleTextChange_def lastIndexOf_def slice_def searchEmployees_def Let_def)

subsection \<open>Claim C5: the mention trigger\<close>

text \<open>
  C5, as the code has it. Writing the text as \<open>pre @ '@' # q\<close> with no \<open>@\<close> in \<open>q\<close>
  (so \<open>q\<close> is what follows the last \<open>@\<close>), \<open>handleTextChange\<close> sends the directory
  lookup for \<open>q\<close>, and makes \<open>q\<close> the active query and the field the active target,
  exactly when \<open>q\<close> is not empty and holds no SPACE character (U+0020); otherwise, and
  when the text has no \<open>@\<close> at all, it sends nothing and closes the popup. So
  "hello @jo" activates the query "jo", "hello @jo smith" does not activate, and a bare
  "@" neither activates nor calls the server. Only SPACE ends the token: other white
  space (TAB, a line break) does not.
\<close>

theorem handleTextChange_trigger:
  "(CHR ''@'' \<notin> set text \<longrightarrow>
      snd (handleTextChange text fld s) = [] \<and>
      \<not> showMentionSuggestions (fst (handleTextChange text fld s)))
   \<and> (\<forall>pre q. text = pre @ CHR ''@'' # q \<and> CHR ''@'' \<notin> set q \<longrightarrow>
        (q \<noteq> [] \<and> CHR '' '' \<notin> set q \<longrightarrow>
           snd (handleTextChange text fld s) = [SearchEmployees q 10] \<and>
           mentionQuery (fst (handleTextChange text fld s)) = q \<and>
           activeMentionField (fst (handleTextChange text fld s)) = Some fld) \<and>
        (q = [] \<or> CHR '' '' \<in> set q \<longrightarrow>
           snd (handleTextChange text fld s) = [] \<and>
           \<not> showMentionSuggestions (fst (handleTextChange text fld s))))
   \<and> snd (handleTextChange ''hello @jo'' fld s) = [SearchEmployees ''jo'' 10]
   \<and> mentionQuery (fst (handleTextChange ''hello @jo'' fld s)) = ''jo''
   \<and> snd (handleTextChange ''hello @jo smith'' fld s) = []
   \<and> snd (handleTextChange ''@'' fld s) = []"
proof -
  have a: "CHR ''@'' \<notin> set text \<longrightarrow>
      snd (handleTextChange text fld s) = [] \<and>
      \<not> showMentionSuggestions (fst (handleTextChange text fld s))"
    by (simp add: handleTextChange_without_at)
  have b: "\<forall>pre q. text = pre @ CHR ''@'' # q \<and> CHR ''@'' \<notin> set q \<longrightarrow>
        (q \<noteq> [] \<and> CHR '' '' \<notin> set q \<longrightarrow>
           snd (handleTextChange text fld s) = [SearchEmployees q 10] \<and>
           mentionQuery (fst (handleTextChange text fld s)) = q \<and>
           activeMentionField (fst (handleTextChange text fld s)) = Some fld) \<and>
        (q = [] \<or> CHR '' '' \<in> set q \<longrightarrow>
           snd (handleTextChange text fld s) = [] \<and>
           \<not> showMentionSuggestions (fst (handleTextChange text fld s)))"
    by (auto simp: handleTextChange_with_at)
  show ?thesis
    using a b handleTextChange_examples[of fld s] by blast
qed

theorem handleTextChange_trigger_witness:
  "''see @amy'' = ''see '' @ CHR ''@'' # ''amy'' \<and> CHR ''@'' \<notin> set ''amy''
   \<and> ''amy'' \<noteq> [] \<and> CHR '' '' \<notin> set ''amy''
   \<and> snd (handleTextChange ''see @amy'' Reply initial_comments) = [SearchEmployees ''amy'' 10]
   \<and> mentionQuery (fst (handleTextChange ''see @amy'' Reply initial_comments)) = ''amy''
   \<and> activeMentionField (fst (handleTextChange ''see @amy'' Reply initial_comments)) = Some Reply"
proof -
  have h: "''see @amy'' = ''see '' @ CHR ''@'' # ''amy'' \<and> CHR ''@'' \<notin> set ''amy''" by simp
  have g: "''amy'' \<noteq> [] \<and> CHR '' '' \<notin> set ''amy''" by simp
  from handleTextChange_trigger [of "''see @amy''" Reply initial_comments]
  have "\<forall>pre q. ''see @amy'' = pre @ CHR ''@'' # q \<and> CHR ''@'' \<notin> set q \<longrightarrow>
        (q \<noteq> [] \<and> CHR '' '' \<notin> set q \<longrightarrow>
           snd (handleTextChange ''see @amy'' Reply initial_comments) = [SearchEmployees q 10] \<and>
           mentionQuery (fst (handleTextChange ''see @amy'' Reply initial_comments)) = q \<and>
           activeMentionField (fst (handleTextChange ''see @amy'' Reply initial_comments)) = Some Reply)"
    by blast
  from this h g show ?thesis by blast
qed

text \<open>
  The claim as the specification words it (no white space after the last \<open>@\<close>) fails
  on a line break: for the text "@j", LF, "s" the specification's rule gives no query,
  while the code sends the lookup for "j", LF, "s".
\<close>

theorem handleTextChange_whitespace_counterexample:
  "spec_mention_query [CHR ''@'', CHR ''j'', CHR 0x0A, CHR ''s''] = None \<and>
   snd (handleTextChange [CHR ''@'', CHR ''j'', CHR 0x0A, CHR ''s''] New initial_comments) =
     [SearchEmployees [CHR ''j'', CHR 0x0A, CHR ''s''] 10]"
  by (simp add: handleTextChange_def lastIndexOf_def slice_def searchEmployees_def Let_def
      spec_mention_query_def js_whitespace_def)

subsection \<open>Claim C7: deleting a comment\<close>

text \<open>
  C7. After a confirmed delete whose request resolved, the local list holds exactly the
  comments of the previous list whose id differs from \<open>commentId\<close>, in their previous
  order (it is a subsequence of the previous list); with unique ids that is the previous
  list with the one deleted comment cut out. Replies to the deleted comment stay in the
  list: nothing cascades.
\<close>

theorem handleDeleteComment_removes_only_target:
  assumes "handleDeleteComment True (Resolved ()) commentId s = (s', reqs)"
  shows "(\<forall>c. c \<in> set (comments s') \<longleftrightarrow> c \<in> set (comments s) \<and> comment_id c \<noteq> commentId)
       \<and> subseq (comments s') (comments s)
       \<and> (\<forall>xs c ys. comments s = xs @ c # ys \<and> comment_id c = commentId \<and>
             distinct (map comment_id (comments s)) \<longrightarrow> comments s' = xs @ ys)
       \<and> (\<forall>c\<in>set (comments s). parent_comment_id c = Some commentId \<and> comment_id c \<noteq> commentId
             \<longrightarrow> c \<in> set (comments s'))"
proof -
  have eq: "comments s' = filter (\<lambda>c. comment_id c \<noteq> commentId) (comments s)"
    using assms by (auto simp: handleDeleteComment_def)
  have cut: "comments s' = xs @ ys"
    if "comments s = xs @ c # ys \<and> comment_id c = commentId \<and> distinct (map comment_id (comments s))"
    for xs c ys
  proof -
    from that have a: "comments s = xs @ c # ys" and b: "comment_id c = commentId"
      and d: "distinct (map comment_id (comments s))" by blast+
    from d have "distinct (map comment_id (xs @ c # ys))" unfolding a .
    from distinct_ids_split[OF this] b show ?thesis
      unfolding eq a by (simp add: filter_remove_unique)
  qed
  have c1: "\<forall>c. c \<in> set (comments s') \<longleftrightarrow> c \<in> set (comments s) \<and> comment_id c \<noteq> commentId"
    by (simp add: eq)
  have c2: "subseq (comments s') (comments s)"
    by (simp add: eq)
  have c3: "\<forall>xs c ys. comments s = xs @ c # ys \<and> comment_id c = commentId \<and>
             distinct (map comment_id (comments s)) \<longrightarrow> comments s' = xs @ ys"
    using cut by blast
  have c4: "\<forall>c\<in>set (comments s). parent_comment_id c = Some commentId \<and> comment_id c \<noteq> commentId
             \<longrightarrow> c \<in> set (comments s')"
    by (simp add: eq)
  show ?thesis using c1 c2 c3 c4 by blast
qed

theorem handleDeleteComment_removes_only_target_witness:
  "handleDeleteComment True (Resolved ()) 1
      (initial_comments\<lparr>comments := [mk_comment 1 None ''a'', mk_comment 2 (Some 1) ''b'', mk_comment 3 None ''c'']\<rparr>)
     = (initial_comments\<lparr>comments := [mk_comment 2 (Some 1) ''b'', mk_comment 3 None ''c'']\<rparr>, [DeleteComment 1])
   \<and> mk_comment 2 (Some 1) ''b'' \<in> set [mk_comment 2 (Some 1) ''b'', mk_comment 3 None ''c'']"
  using handleDeleteComment_removes_only_target
    [of 1 "initial_comments\<lparr>comments := [mk_comment 1 None ''a'', mk_comment 2 (Some 1) ''b'', mk_comment 3 None ''c'']\<rparr>"
        "initial_comments\<lparr>comments := [mk_comment 2 (Some 1) ''b'', mk_comment 3 None ''c'']\<rparr>" "[DeleteComment 1]"]
  by (simp add: handleDeleteComment_def mk_comment_def)

subsection \<open>Claim C8: editing a comment\<close>

text \<open>
  C8. After an edit whose PATCH resolved (the edit text not blank), the list has its
  previous length, every position whose comment has another id holds the comment it held
  before, and a position whose comment has the edited id holds the server's record; with
  unique ids exactly one position changes. The handler sends the PATCH and nothing else:
  the list is not reloaded.
\<close>

theorem handleEditComment_patches_in_place:
  assumes "trim (editText s) \<noteq> []"
    and "handleEditComment (Resolved data) commentId s = (s', reqs)"
  shows "length (comments s') = length (comments s)
       \<and> (\<forall>i<length (comments s).
            comments s' ! i = (if comment_id (comments s ! i) = commentId then data else comments s ! i))
       \<and> (\<forall>xs c ys. comments s = xs @ c # ys \<and> comment_id c = commentId \<and>
             distinct (map comment_id (comments s)) \<longrightarrow> comments s' = xs @ data # ys)
       \<and> reqs = [PatchComment commentId (editText s)]
       \<and> GetComments \<notin> set reqs"
proof -
  have eq: "comments s' = map (\<lambda>c. if comment_id c = commentId then data else c) (comments s)"
    and rq: "reqs = [PatchComment commentId (editText s)]"
    using assms by (auto simp: handleEditComment_def)
  have cut: "comments s' = xs @ data # ys"
    if "comments s = xs @ c # ys \<and> comment_id c = commentId \<and> distinct (map comment_id (comments s))"
    for xs c ys
  proof -
    from that have a: "comments s = xs @ c # ys" and b: "comment_id c = commentId"
      and d: "distinct (map comment_id (comments s))" by blast+
    from d have "distinct (map comment_id (xs @ c # ys))" unfolding a .
    from distinct_ids_split[OF this] b show ?thesis
      unfolding eq a by (intro map_replace_unique) simp_all
  qed
  have c1: "length (comments s') = length (comments s)"
    by (simp add: eq)
  have c2: "\<forall>i<length (comments s).
            comments s' ! i = (if comment_id (comments s ! i) = commentId then data else comments s ! i)"
    by (simp add: eq)
  have c3: "\<forall>xs c ys. comments s = xs @ c # ys \<and> comment_id c = commentId \<and>
             distinct (map comment_id (comments s)) \<longrightarrow> comments s' = xs @ data # ys"
    using cut by blast
  have c5: "GetComments \<notin> set reqs"
    by (simp add: rq)
  show ?thesis using c1 c2 c3 rq c5 by blast
qed

theorem handleEditComment_patches_in_place_witness:
  "trim (editText edit_example) \<noteq> []
   \<and> handleEditComment (Resolved ((mk_comment 2 (Some 1) ''b, fixed'')\<lparr>is_edited := True\<rparr>)) 2 edit_example
     = (initial_comments\<lparr>comments := [mk_comment 1 None ''a'',
            (mk_comment 2 (Some 1) ''b, fixed'')\<lparr>is_edited := True\<rparr>, mk_comment 3 None ''c'']\<rparr>,
        [PatchComment 2 ''b, fixed''])
   \<and> GetComments \<notin> set [PatchComment 2 ''b, fixed'']"
  using handleEditComment_patches_in_place
    [of edit_example "(mk_comment 2 (Some 1) ''b, fixed'')\<lparr>is_edited := True\<rparr>" 2
        "initial_comments\<lparr>comments := [mk_comment 1 None ''a'',
            (mk_comment 2 (Some 1) ''b, fixed'')\<lparr>is_edited := True\<rparr>, mk_comment 3 None ''c'']\<rparr>"
        "[PatchComment 2 ''b, fixed'']"]
  by (simp add: handleEditComment_def mk_comment_def edit_example_def trim_def js_whitespace_def initial_comments_def)

section \<open>Properties of the QA workflow panel\<close>

lemma handleStatusChange_sent:
  "payload (handleStatusChange now resp newStatus s) = status_updates now newStatus (qaData s)"
  "optimistic (handleStatusChange now resp newStatus s)
     = s\<lparr>qaData := status_updates now newStatus (qaData s)\<rparr>"
  by (cases resp; simp add: handleStatusChange_def Let_def)+

subsection \<open>Claim C3: rollback of a failed mutation\<close>

text \<open>
  C3, as the code has it. For a status transition, an assignment, a checklist toggle and
  an overall-result selection, the handler shows the change at once and, when the
  persistence call is rejected, puts back the QA record it captured before the change.
  Notes do not follow this pattern: the typed text is already in the QA record when
  Save is pressed, \<open>handleSaveNotes\<close> captures nothing, and after a rejected save the
  QA record is the one from just before the save, typed notes included; nothing is
  rolled back.
\<close>

theorem failed_mutation_rollback:
  "qaData (settled (handleStatusChange now Rejected newStatus s)) = qaData s
   \<and> qaData (settled (handleAssign now Rejected employeeId s)) = qaData s
   \<and> qaData (settled (handleChecklistChange Rejected fld s)) = qaData s
   \<and> qaData (settled (handleOverallResultChange Rejected result s)) = qaData s
   \<and> qaData (optimistic (handleStatusChange now Rejected newStatus s))
        = status_updates now newStatus (qaData s)
   \<and> qaData (optimistic (handleAssign now Rejected employeeId s))
        = payload (handleAssign now Rejected employeeId s)
   \<and> qa_assigned_id (payload (handleAssign now Rejected employeeId s)) = Some employeeId
   \<and> qaData (optimistic (handleChecklistChange Rejected Qa_test_plan_check s))
        = (qaData s)\<lparr>qa_test_plan_check := \<not> qa_test_plan_check (qaData s)\<rparr>
   \<and> qaData (optimistic (handleOverallResultChange Rejected result s))
        = (qaData s)\<lparr>qa_overall_result := result\<rparr>
   \<and> qaData (settled (handleSaveNotes Rejected (notes_onChange text s)))
        = (qaData s)\<lparr>qa_notes := text\<rparr>
   \<and> qaData (settled (handleSaveNotes Rejected s)) = qaData s"
  by (simp add: handleStatusChange_def handleAssign_def handleChecklistChange_def
      handleOverallResultChange_def handleSaveNotes_def notes_onChange_def Let_def
      split: checklist_field.split)

theorem failed_mutation_rollback_witness:
  "qa_status (qaData (optimistic (handleStatusChange ''2025-02-01T10:00:00.000Z'' Rejected ''Passed'' qa_example))) = ''Passed''
   \<and> qaData (settled (handleStatusChange ''2025-02-01T10:00:00.000Z'' Rejected ''Passed'' qa_example)) = qaData qa_example
   \<and> qa_notes (qaData (settled (handleSaveNotes Rejected (notes_onChange ''retest'' qa_example)))) = ''retest''"
  using failed_mutation_rollback [of "''2025-02-01T10:00:00.000Z''" "''Passed''" qa_example 0 Qa_test_plan_check None "''retest''"]
  by (simp add: status_updates_def Let_def)

text \<open>
  The claim as stated, uniform over all five kinds, fails for notes: the notes typed into
  the dialog survive a rejected save, so the QA record after the failed call is not the
  record from before the notes were changed.
\<close>

theorem notes_not_rolled_back_counterexample:
  "qaData (settled (handleSaveNotes Rejected (notes_onChange ''retest on build 12'' qa_example)))
     \<noteq> qaData qa_example"
  by (simp add: handleSaveNotes_def notes_onChange_def qa_example_def Let_def)

subsection \<open>Claim C6: stamps of a status transition\<close>

text \<open>
  C6. Changing the status to "In Testing" while no started date is set stamps the
  started date with the current time; changing it to "Passed" or "Failed" sets the
  completed flag and stamps the completion date (the code stamps it whether or not one
  was set before, so in particular when none was). The stamps are part of the record
  that is shown optimistically, and that same record is the persisted payload.
\<close>

theorem handleStatusChange_stamps:
  "(newStatus = ''In Testing'' \<and> \<not> truthy (qa_started_date (qaData s)) \<longrightarrow>
      qa_started_date (payload (handleStatusChange now resp newStatus s)) = Some now)
   \<and> (newStatus = ''Passed'' \<or> newStatus = ''Failed'' \<longrightarrow>
      qa_completed (payload (handleStatusChange now resp newStatus s)) \<and>
      qa_completed_date (payload (handleStatusChange now resp newStatus s)) = Some now)
   \<and> qa_status (payload (handleStatusChange now resp newStatus s)) = newStatus
   \<and> qaData (optimistic (handleStatusChange now resp newStatus s))
        = payload (handleStatusChange now resp newStatus s)"
  by (simp add: handleStatusChange_sent status_updates_def Let_def)

theorem handleStatusChange_stamps_witness:
  "''Passed'' = ''Passed'' \<and> \<not> truthy (qa_completed_date (qaData qa_example))
   \<and> qa_completed (payload (handleStatusChange ''2025-02-01T10:00:00.000Z'' (Resolved ()) ''Passed'' qa_example))
   \<and> qa_completed_date (payload (handleStatusChange ''2025-02-01T10:00:00.000Z'' (Resolved ()) ''Passed'' qa_example))
        = Some ''2025-02-01T10:00:00.000Z''
   \<and> \<not> truthy (qa_started_date (qaData (qa_example\<lparr>qaData := (qaData qa_example)\<lparr>qa_started_date := None\<rparr>\<rparr>)))
   \<and> qa_started_date (payload (handleStatusChange ''2025-02-01T10:00:00.000Z'' (Resolved ()) ''In Testing''
          (qa_example\<lparr>qaData := (qaData qa_example)\<lparr>qa_started_date := None\<rparr>\<rparr>)))
        = Some ''2025-02-01T10:00:00.000Z''"
  using handleStatusChange_stamps [of "''Passed''" qa_example "''2025-02-01T10:00:00.000Z''" "Resolved ()"]
    handleStatusChange_stamps [of "''In Testing''" "qa_example\<lparr>qaData := (qaData qa_example)\<lparr>qa_started_date := None\<rparr>\<rparr>"
       "''2025-02-01T10:00:00.000Z''" "Resolved ()"]
  by (simp add: truthy_def qa_example_def)

section \<open>Properties of the reaction widgets\<close>

lemma guard_inv_initial: "guard_inv initial_widgets"
  by (simp add: guard_inv_def initial_widgets_def initial_reactions_def)

lemma filter_eq_remove1_other:
  "x \<noteq> y \<Longrightarrow> filter (\<lambda>p. p = y) (remove1 x xs) = filter (\<lambda>p. p = y) xs"
  by (induction xs) auto

lemma toggling_loadReactions [simp]: "toggling (loadReactions res s) = toggling s"
  by (cases res) (simp_all add: loadReactions_def)

lemma toggling_settled [simp]: "\<not> toggling (toggleReaction_settled outcome s)"
  by (cases outcome) (simp_all add: toggleReaction_settled_def)

lemma guard_inv_Click:
  assumes "guard_inv w"
  shows "guard_inv (widgets_step w (Click commentId emoji))"
proof (cases "toggling (widget w commentId)")
  case True
  then have "widgets_step w (Click commentId emoji) = w"
    by (simp add: widgets_step_def toggleReaction_def)
  with assms show ?thesis by simp
next
  case False
  then have step: "widgets_step w (Click commentId emoji) =
      w\<lparr>widget := (widget w)(commentId := (widget w commentId)\<lparr>toggling := True\<rparr>),
        pending := pending w @ [(commentId, generation w)]\<rparr>"
    by (simp add: widgets_step_def toggleReaction_def)
  from assms False show ?thesis
    unfolding step guard_inv_def by auto
qed

lemma guard_inv_Answer:
  assumes "guard_inv w"
  shows "guard_inv (widgets_step w (Answer commentId g outcome))"
proof (cases "(commentId, g) \<in> set (pending w)")
  case False
  then have "widgets_step w (Answer commentId g outcome) = w"
    by (simp add: widgets_step_def)
  with assms show ?thesis by simp
next
  case True
  from assms have old: "\<forall>p\<in>set (pending w). snd p \<le> generation w"
    and one: "\<And>c. filter (\<lambda>p. p = (c, generation w)) (pending w)
              = (if toggling (widget w c) then [(c, generation w)] else [])"
    by (simp_all add: guard_inv_def)
  have sub: "\<forall>p\<in>set (remove1 (commentId, g) (pending w)). snd p \<le> generation w"
    using old by (auto dest: notin_set_remove1)
  show ?thesis
  proof (cases "g = generation w")
    case False
    then have step: "widgets_step w (Answer commentId g outcome) =
        w\<lparr>pending := remove1 (commentId, g) (pending w)\<rparr>"
      using True by (simp add: widgets_step_def)
    have "filter (\<lambda>p. p = (c, generation w)) (remove1 (commentId, g) (pending w))
          = filter (\<lambda>p. p = (c, generation w)) (pending w)" for c
      using False by (intro filter_eq_remove1_other) simp
    with sub one show ?thesis
      unfolding step guard_inv_def by simp
  next
    case g: True
    then have step: "widgets_step w (Answer commentId g outcome) =
        w\<lparr>widget := (widget w)(commentId := toggleReaction_settled outcome (widget w commentId)),
          pending := remove1 (commentId, generation w) (pending w)\<rparr>"
      using True by (simp add: widgets_step_def)
    from True g have "(commentId, generation w) \<in> set (filter (\<lambda>p. p = (commentId, generation w)) (pending w))"
      by simp
    with one[of commentId] have own: "filter (\<lambda>p. p = (commentId, generation w)) (pending w)
        = [(commentId, generation w)]"
      by (auto split: if_splits)
    have same: "filter (\<lambda>p. p = (commentId, generation w)) (remove1 (commentId, generation w) (pending w)) = []"
      by (simp add: filter_remove1 own)
    have other: "filter (\<lambda>p. p = (c, generation w)) (remove1 (commentId, generation w) (pending w))
          = filter (\<lambda>p. p = (c, generation w)) (pending w)" if "c \<noteq> commentId" for c
      using that by (intro filter_eq_remove1_other) simp
    have "\<forall>c. filter (\<lambda>p. p = (c, generation w)) (remove1 (commentId, generation w) (pending w))
            = (if toggling (((widget w)(commentId := toggleReaction_settled outcome (widget w commentId))) c)
               then [(c, generation w)] else [])"
    proof
      fix c
      show "filter (\<lambda>p. p = (c, generation w)) (remove1 (commentId, generation w) (pending w))
            = (if toggling (((widget w)(commentId := toggleReaction_settled outcome (widget w commentId))) c)
               then [(c, generation w)] else [])"
        by (cases "c = commentId") (simp_all add: same other one)
    qed
    with sub g show ?thesis
      unfolding step guard_inv_def by simp
  qed
qed

lemma guard_inv_Loaded:
  assumes "guard_inv w"
  shows "guard_inv (widgets_step w (Loaded commentId g res))"
  using assms by (auto simp: widgets_step_def guard_inv_def)

lemma guard_inv_Render:
  assumes "guard_inv w"
  shows "guard_inv (widgets_step w Render)"
proof -
  from assms have old: "\<forall>p\<in>set (pending w). snd p \<le> generation w"
    by (simp add: guard_inv_def)
  then have "filter (\<lambda>p. p = (c, Suc (generation w))) (pending w) = []" for c
    by (auto simp: filter_empty_conv)
  with old show ?thesis
    by (auto simp: widgets_step_def guard_inv_def initial_reactions_def)
qed

lemma guard_inv_step: "guard_inv w \<Longrightarrow> guard_inv (widgets_step w ev)"
  by (cases ev) (simp_all add: guard_inv_Click guard_inv_Answer guard_inv_Loaded guard_inv_Render)

lemma guard_inv_foldl: "guard_inv w \<Longrightarrow> guard_inv (foldl widgets_step w events)"
  by (induction events arbitrary: w) (simp_all add: guard_inv_step)

lemma guard_inv_run: "guard_inv (widgets_run events)"
  by (simp add: widgets_run_def guard_inv_foldl guard_inv_initial)

text \<open>
  What the flag does achieve: a mounted component never has two of its own requests
  pending, and while its flag is set a click on it sends nothing.
\<close>

lemma guard_per_component:
  "length (filter (\<lambda>p. p = (c, generation (widgets_run events))) (pending (widgets_run events))) \<le> 1"
  using guard_inv_run[of events] by (simp add: guard_inv_def)

lemma click_while_toggling: "toggling (widget w c) \<Longrightarrow> widgets_step w (Click c emoji) = w"
  by (simp add: widgets_step_def toggleReaction_def)

subsection \<open>Claim C9: one toggle request per comment at a time\<close>

text \<open>
  C9 fails on the code. A click on an emoji of comment 5 sends the POST and sets the
  flag of the mounted component. When \<open>QAComments\<close> renders before the answer arrives,
  the component of comment 5 is mounted anew with the flag cleared, and a second click
  on comment 5 sends a second POST: two toggle requests for the same comment are in
  flight together, the first of generation 0 and the second of generation 1. The second
  click is not ignored.
\<close>

theorem remount_double_toggle:
  "pending (widgets_run [Click 5 ''+1'', Render, Click 5 ''+1'']) = [(5, 0), (5, 1)]
   \<and> in_flight (widgets_run [Click 5 ''+1'', Render, Click 5 ''+1'']) 5 = 2
   \<and> in_flight (widgets_run [Click 5 ''+1'', Render]) 5 = 1
   \<and> snd (toggleReaction ''+1'' (widget (widgets_run [Click 5 ''+1'', Render]) 5)) = [''+1'']
   \<and> pending (widgets_run [Click 5 ''+1'', Click 5 ''+1'']) = [(5, 0)]"
  by (simp add: widgets_run_def widgets_step_def initial_widgets_def initial_reactions_def
      toggleReaction_def in_flight_def)

section \<open>Properties of the tree builder\<close>

lemma forEach_register:
  "\<forall>a\<in>set as. a < length (heap s) \<Longrightarrow>
   forEach register_comment as s =
     Inr (s\<lparr>heap := heap s @ map (\<lambda>a. clone (heap s ! a)) as,
            commentMap := commentMap s ++ map_of (registered (heap s) as)\<rparr>)"
proof (induction as arbitrary: s)
  case Nil
  then show ?case by (simp add: registered_def)
next
  case (Cons a as)
  let ?s1 = "s\<lparr>heap := heap s @ [clone (heap s ! a)],
                commentMap := (commentMap s)(id_at (heap s) a \<mapsto> length (heap s))\<rparr>"
  from Cons.prems have a: "a < length (heap s)" and as: "\<forall>b\<in>set as. b < length (heap s)"
    by simp_all
  have step: "register_comment a s = Inr ?s1"
    using a by (simp add: register_comment_def deref_def clone_def id_at_def)
  have pre: "\<forall>b\<in>set as. b < length (heap ?s1)"
    using as by auto
  have same: "map (\<lambda>b. clone (heap ?s1 ! b)) as = map (\<lambda>b. clone (heap s ! b)) as"
    using as by (simp add: nth_append)
  have ids: "map (id_at (heap ?s1)) as = map (id_at (heap s)) as"
    using as by (simp add: nth_append id_at_def)
  have reg: "(commentMap ?s1) ++ map_of (registered (heap ?s1) as)
             = commentMap s ++ map_of (registered (heap s) (a # as))"
    unfolding registered_def ids
    by (simp add: upt_conv_Cons del: upt_Suc)
  have "forEach register_comment (a # as) s = forEach register_comment as ?s1"
    using step by simp
  also have "\<dots> = Inr (?s1\<lparr>heap := heap ?s1 @ map (\<lambda>b. clone (heap ?s1 ! b)) as,
                          commentMap := commentMap ?s1 ++ map_of (registered (heap ?s1) as)\<rparr>)"
    by (rule Cons.IH[OF pre])
  also have "\<dots> = Inr (s\<lparr>heap := heap s @ map (\<lambda>b. clone (heap s ! b)) (a # as),
                          commentMap := commentMap s ++ map_of (registered (heap s) (a # as))\<rparr>)"
    unfolding same reg by simp
  finally show ?case .
qed

lemma registered_Some:
  assumes "map_of (registered h as) k = Some n"
  shows "length h \<le> n \<and> n < length h + length as \<and> id_at h (as ! (n - length h)) = k"
proof -
  from assms have "(k, n) \<in> set (zip (map (id_at h) as) [length h..<length h + length as])"
    by (auto simp: registered_def dest: map_of_SomeD)
  then obtain i where i: "i < length as" "map (id_at h) as ! i = k"
    "[length h..<length h + length as] ! i = n"
    by (auto simp: in_set_zip)
  then show ?thesis by auto
qed

lemma registered_defined:
  assumes "a \<in> set as"
  shows "map_of (registered h as) (id_at h a) \<noteq> None"
proof -
  have "fst ` set (registered h as) = set (map (id_at h) as)"
    by (simp add: registered_def flip: set_map)
  then show ?thesis using assms by (simp add: map_of_eq_None_iff)
qed

lemma registered_distinct:
  assumes "distinct (map (id_at h) as)" and "i < length as"
  shows "map_of (registered h as) (id_at h (as ! i)) = Some (length h + i)"
proof -
  have d: "distinct (map fst (registered h as))"
    using assms(1) by (simp add: registered_def rev_map[symmetric] flip: zip_map_fst_snd)
  have "(id_at h (as ! i), length h + i) \<in> set (registered h as)"
    using assms(2) by (auto simp: registered_def in_set_zip intro!: exI[of _ i])
  with d show ?thesis by (rule map_of_is_SomeI)
qed

lemma add_replies_Nil [simp]: "add_replies [] ob = ob"
  by (simp add: add_replies_def split: option.splits)

lemma add_replies_add_replies [simp]:
  "add_replies c2 (add_replies c1 ob) = add_replies (c1 @ c2) ob"
  by (simp add: add_replies_def split: option.splits)

lemma replies_add_replies:
  "replies (add_replies ch ob) = map_option (\<lambda>rs. rs @ ch) (replies ob)"
  by (simp add: add_replies_def split: option.splits)

lemma props_add_replies [simp]: "props (add_replies ch ob) = props ob"
  by (simp add: add_replies_def split: option.splits)

lemma children_Nil [simp]: "children m h [] p = []"
  by (simp add: children_def)

lemma children_Cons:
  "children m h (b # bs) p = (if target m h b = Some p then [node_at m h b] else []) @ children m h bs p"
  by (simp add: children_def)

lemma children_frame:
  "\<forall>a\<in>set bs. h' ! a = h ! a \<Longrightarrow> children m h' bs p = children m h bs p"
  by (induction bs) (auto simp: children_def node_at_def target_def id_at_def)

lemma new_roots_frame:
  "\<forall>a\<in>set bs. h' ! a = h ! a \<Longrightarrow> new_roots m h' bs = new_roots m h bs"
  by (induction bs) (auto simp: new_roots_def node_at_def id_at_def)

lemma attached_simps [simp]:
  "commentMap (attached s bs) = commentMap s"
  "length (heap (attached s bs)) = length (heap s)"
  "p < length (heap s) \<Longrightarrow>
     heap (attached s bs) ! p = add_replies (children (commentMap s) (heap s) bs p) (heap s ! p)"
  "rootComments (attached s bs) = rootComments s @ new_roots (commentMap s) (heap s) bs"
  by (simp_all add: attached_def)

lemma target_fresh:
  assumes "attach_ready n0 bs s" and "target (commentMap s) (heap s) b = Some p"
  shows "n0 \<le> p \<and> p < length (heap s) \<and> replies (heap s ! p) \<noteq> None"
  using assms by (auto simp: attach_ready_def target_def split: option.splits)

lemma children_below:
  assumes "attach_ready n0 bs s" and "p < n0"
  shows "children (commentMap s) (heap s) cs p = []"
proof -
  have "target (commentMap s) (heap s) a \<noteq> Some p" for a
    using target_fresh[OF assms(1), of a p] assms(2) by auto
  then show ?thesis by (simp add: children_def)
qed

lemma attached_below:
  assumes "attach_ready n0 bs s" and "p < n0"
  shows "heap (attached s cs) ! p = heap s ! p"
proof -
  from assms have "p < length (heap s)" by (simp add: attach_ready_def)
  then show ?thesis by (simp add: children_below[OF assms])
qed

lemma attach_step:
  assumes "attach_ready n0 (b # bs) s"
  shows "attach_comment b s = Inr (attached s [b])"
proof -
  from assms have b: "b < length (heap s)" and "commentMap s (id_at (heap s) b) \<noteq> None"
    by (auto simp: attach_ready_def)
  then obtain node where node: "commentMap s (id_at (heap s) b) = Some node"
    by auto
  have na: "node_at (commentMap s) (heap s) b = node"
    by (simp add: node_at_def node)
  show ?thesis
  proof (cases "reply_parent (props (heap s ! b))")
    case None
    then have t: "target (commentMap s) (heap s) b = None"
      by (simp add: target_def)
    have "heap (attached s [b]) = heap s"
      by (rule nth_equalityI) (simp_all add: children_Cons t)
    then have "attached s [b] = s\<lparr>rootComments := rootComments s @ [node]\<rparr>"
      by (simp add: attached_def new_roots_def None na)
    with None b node show ?thesis
      by (simp add: attach_comment_def deref_def id_at_def)
  next
    case (Some pid)
    then have t: "target (commentMap s) (heap s) b = commentMap s pid"
      by (simp add: target_def)
    have nr: "new_roots (commentMap s) (heap s) [b] = []"
      by (simp add: new_roots_def Some)
    show ?thesis
    proof (cases "commentMap s pid")
      case None
      have "heap (attached s [b]) = heap s"
        by (rule nth_equalityI) (simp_all add: children_Cons t None)
      then have "attached s [b] = s"
        by (simp add: attached_def nr)
      with None Some b show ?thesis
        by (simp add: attach_comment_def deref_def)
    next
      case (Some parent)
      with target_fresh[OF assms, of b parent] t
      have p: "parent < length (heap s)" and "replies (heap s ! parent) \<noteq> None"
        by auto
      then obtain rs where rs: "replies (heap s ! parent) = Some rs" by auto
      have "heap (attached s [b]) = (heap s)[parent := (heap s ! parent)\<lparr>replies := Some (rs @ [node])\<rparr>]"
      proof (rule nth_equalityI)
        show "length (heap (attached s [b])) = length ((heap s)[parent := (heap s ! parent)\<lparr>replies := Some (rs @ [node])\<rparr>])"
          by simp
      next
        fix i assume "i < length (heap (attached s [b]))"
        then have i: "i < length (heap s)" by simp
        show "heap (attached s [b]) ! i = (heap s)[parent := (heap s ! parent)\<lparr>replies := Some (rs @ [node])\<rparr>] ! i"
        proof (cases "i = parent")
          case True
          with i show ?thesis
            by (simp add: children_Cons t Some na add_replies_def rs)
        next
          case False
          with i show ?thesis
            by (simp add: children_Cons t Some)
        qed
      qed
      then have "attached s [b] = s\<lparr>heap := (heap s)[parent := (heap s ! parent)\<lparr>replies := Some (rs @ [node])\<rparr>]\<rparr>"
        by (simp add: attached_def nr)
      with Some \<open>reply_parent (props (heap s ! b)) = Some pid\<close> b node p rs show ?thesis
        by (simp add: attach_comment_def deref_def id_at_def)
    qed
  qed
qed

lemma attach_ready_step:
  assumes "attach_ready n0 (b # bs) s"
  shows "attach_ready n0 bs (attached s [b])"
proof -
  have below: "heap (attached s [b]) ! a = heap s ! a" if "a < n0" for a
    using attached_below[OF assms that] .
  have len: "n0 \<le> length (heap s)"
    using assms by (simp add: attach_ready_def)
  have 1: "\<forall>a\<in>set bs. a < n0 \<and> commentMap (attached s [b]) (id_at (heap (attached s [b])) a) \<noteq> None"
    using assms below by (auto simp: attach_ready_def id_at_def)
  have 3: "\<forall>k n. commentMap (attached s [b]) k = Some n \<longrightarrow>
            n0 \<le> n \<and> n < length (heap (attached s [b])) \<and> replies (heap (attached s [b]) ! n) \<noteq> None"
  proof (intro allI impI)
    fix k n assume "commentMap (attached s [b]) k = Some n"
    then have "commentMap s k = Some n" by simp
    with assms have n: "n0 \<le> n" "n < length (heap s)" "replies (heap s ! n) \<noteq> None"
      by (auto simp: attach_ready_def)
    then show "n0 \<le> n \<and> n < length (heap (attached s [b])) \<and> replies (heap (attached s [b]) ! n) \<noteq> None"
      by (simp add: replies_add_replies)
  qed
  have 2: "n0 \<le> length (heap (attached s [b]))"
    using len by simp
  show ?thesis
    unfolding attach_ready_def using 1 2 3 by blast
qed

lemma attached_Cons:
  assumes "attach_ready n0 (b # bs) s"
  shows "attached (attached s [b]) bs = attached s (b # bs)"
proof -
  have below: "\<forall>a\<in>set bs. heap (attached s [b]) ! a = heap s ! a"
    using attached_below[OF assms] assms by (auto simp: attach_ready_def)
  have ch: "children (commentMap s) (heap (attached s [b])) bs p = children (commentMap s) (heap s) bs p" for p
    by (rule children_frame[OF below])
  have nr: "new_roots (commentMap s) (heap (attached s [b])) bs = new_roots (commentMap s) (heap s) bs"
    by (rule new_roots_frame[OF below])
  have h: "heap (attached (attached s [b]) bs) = heap (attached s (b # bs))"
  proof (rule nth_equalityI)
    show "length (heap (attached (attached s [b]) bs)) = length (heap (attached s (b # bs)))"
      by simp
  next
    fix p assume "p < length (heap (attached (attached s [b]) bs))"
    then have p: "p < length (heap s)" by simp
    then show "heap (attached (attached s [b]) bs) ! p = heap (attached s (b # bs)) ! p"
      by (simp add: ch children_Cons)
  qed
  have r: "rootComments (attached (attached s [b]) bs) = rootComments (attached s (b # bs))"
    by (simp add: nr) (simp add: new_roots_def)
  have c: "commentMap (attached (attached s [b]) bs) = commentMap (attached s (b # bs))"
    by simp
  have m: "build_state.more (attached (attached s [b]) bs) = build_state.more (attached s (b # bs))"
    by (simp add: attached_def)
  show ?thesis
    by (rule build_state.equality) (fact h c r m)+
qed

lemma attached_Nil: "attached s [] = s"
proof -
  have "heap (attached s []) = heap s"
    by (rule nth_equalityI) simp_all
  then show ?thesis
    by (simp add: attached_def new_roots_def)
qed

lemma forEach_attach:
  "attach_ready n0 bs s \<Longrightarrow> forEach attach_comment bs s = Inr (attached s bs)"
proof (induction bs arbitrary: s)
  case Nil
  then show ?case by (simp add: attached_Nil)
next
  case (Cons b bs)
  have "forEach attach_comment (b # bs) s = forEach attach_comment bs (attached s [b])"
    by (simp add: attach_step[OF Cons.prems])
  also have "\<dots> = Inr (attached (attached s [b]) bs)"
    by (rule Cons.IH[OF attach_ready_step[OF Cons.prems]])
  also have "\<dots> = Inr (attached s (b # bs))"
    by (simp add: attached_Cons[OF Cons.prems])
  finally show ?case .
qed

lemma first_pass:
  assumes "\<forall>a\<in>set as. a < length h"
  shows "forEach register_comment as \<lparr>heap = h, commentMap = Map.empty, rootComments = []\<rparr>
         = Inr (registered_state h as)"
  using forEach_register[of as "\<lparr>heap = h, commentMap = Map.empty, rootComments = []\<rparr>"] assms
  by (simp add: registered_state_def)

lemma registered_state_ready:
  assumes "\<forall>a\<in>set as. a < length h"
  shows "attach_ready (length h) as (registered_state h as)"
proof -
  have 1: "\<forall>a\<in>set as. a < length h \<and>
             commentMap (registered_state h as) (id_at (heap (registered_state h as)) a) \<noteq> None"
  proof
    fix a assume a: "a \<in> set as"
    with assms have lt: "a < length h" by simp
    then have "id_at (heap (registered_state h as)) a = id_at h a"
      by (simp add: registered_state_def id_at_def nth_append)
    with registered_defined[OF a, of h] lt
    show "a < length h \<and>
            commentMap (registered_state h as) (id_at (heap (registered_state h as)) a) \<noteq> None"
      by (simp add: registered_state_def)
  qed
  have 2: "length h \<le> length (heap (registered_state h as))"
    by (simp add: registered_state_def)
  have 3: "\<forall>k n. commentMap (registered_state h as) k = Some n \<longrightarrow>
             length h \<le> n \<and> n < length (heap (registered_state h as)) \<and>
             replies (heap (registered_state h as) ! n) \<noteq> None"
  proof (intro allI impI)
    fix k n assume "commentMap (registered_state h as) k = Some n"
    then have "map_of (registered h as) k = Some n"
      by (simp add: registered_state_def)
    from registered_Some[OF this] have n: "length h \<le> n" "n < length h + length as"
      by simp_all
    then have "heap (registered_state h as) ! n = clone (h ! (as ! (n - length h)))"
      by (simp add: registered_state_def nth_append)
    with n show "length h \<le> n \<and> n < length (heap (registered_state h as)) \<and>
             replies (heap (registered_state h as) ! n) \<noteq> None"
      by (simp add: registered_state_def clone_def)
  qed
  show ?thesis
    unfolding attach_ready_def using 1 2 3 by blast
qed

lemma buildCommentTree_closed:
  assumes "\<forall>a\<in>set as. a < length h"
  shows "buildCommentTree h as = Inr (attached (registered_state h as) as)"
  by (simp add: buildCommentTree_def first_pass[OF assms]
      forEach_attach[OF registered_state_ready[OF assms]])

lemma node_at_fresh:
  assumes "\<forall>a\<in>set as. a < length h" and "a \<in> set as"
  shows "length h \<le> node_at (commentMap (registered_state h as)) (heap (registered_state h as)) a
       \<and> node_at (commentMap (registered_state h as)) (heap (registered_state h as)) a
           < length h + length as"
proof -
  from assms have lt: "a < length h" by simp
  then have i: "id_at (heap (registered_state h as)) a = id_at h a"
    by (simp add: registered_state_def id_at_def nth_append)
  from registered_defined[OF assms(2), of h] obtain n
    where n: "map_of (registered h as) (id_at h a) = Some n" by auto
  from registered_Some[OF n] n i show ?thesis
    by (simp add: node_at_def registered_state_def)
qed

lemma built_input_unchanged:
  assumes "\<forall>a\<in>set as. a < length h"
  shows "take (length h) (heap (attached (registered_state h as) as)) = h"
proof (rule nth_equalityI)
  show "length (take (length h) (heap (attached (registered_state h as) as))) = length h"
    by (simp add: registered_state_def)
next
  fix p assume "p < length (take (length h) (heap (attached (registered_state h as) as)))"
  then have p: "p < length h" by simp
  from attached_below[OF registered_state_ready[OF assms] p, of as] p
  show "take (length h) (heap (attached (registered_state h as) as)) ! p = h ! p"
    by (simp add: registered_state_def nth_append)
qed

lemma built_node:
  assumes "\<forall>a\<in>set as. a < length h" and "i < length as"
  shows "heap (attached (registered_state h as) as) ! (length h + i)
         = (h ! (as ! i))\<lparr>replies := Some (children (commentMap (registered_state h as))
               (heap (registered_state h as)) as (length h + i))\<rparr>"
  using assms(2)
  by (simp add: registered_state_def nth_append add_replies_def clone_def)

lemma built_roots_fresh:
  assumes "\<forall>a\<in>set as. a < length h"
    and "r \<in> set (rootComments (attached (registered_state h as) as))"
  shows "length h \<le> r \<and> r < length h + length as"
  using assms(2) node_at_fresh[OF assms(1)]
  by (auto simp: new_roots_def registered_state_def)

lemma built_children_fresh:
  assumes "\<forall>a\<in>set as. a < length h"
    and "r \<in> set (children (commentMap (registered_state h as)) (heap (registered_state h as)) as p)"
  shows "length h \<le> r \<and> r < length h + length as"
  using assms(2) node_at_fresh[OF assms(1)]
  by (auto simp: children_def)

lemma length_input_heap [simp]: "length (input_heap cs) = length cs"
  by (simp add: input_heap_def)

lemma length_input_array [simp]: "length (input_array cs) = length cs"
  by (simp add: input_array_def)

lemma nth_input_array [simp]: "i < length cs \<Longrightarrow> input_array cs ! i = i"
  by (simp add: input_array_def)

lemma set_input_array [simp]: "set (input_array cs) = {..<length cs}"
  by (auto simp: input_array_def)

lemma nth_input_heap [simp]:
  "a < length cs \<Longrightarrow> input_heap cs ! a = \<lparr>props = cs ! a, replies = None\<rparr>"
  by (simp add: input_heap_def)

lemma input_wf: "\<forall>a\<in>set (input_array cs). a < length (input_heap cs)"
  by simp

lemma input_id_at:
  "a < length cs \<Longrightarrow> id_at (input_heap cs) a = comment_id (cs ! a)"
  by (simp add: id_at_def)

lemma input_ids: "map (id_at (input_heap cs)) (input_array cs) = map comment_id cs"
  by (rule nth_equalityI) (simp_all add: input_id_at)

lemma input_registered_props:
  "a < length cs \<Longrightarrow>
   props (heap (registered_state (input_heap cs) (input_array cs)) ! a) = cs ! a"
  by (simp add: registered_state_def nth_append)

lemma input_map_distinct:
  assumes "distinct (map comment_id cs)" and "i < length cs"
  shows "commentMap (registered_state (input_heap cs) (input_array cs)) (comment_id (cs ! i))
         = Some (length cs + i)"
proof -
  have d: "distinct (map (id_at (input_heap cs)) (input_array cs))"
    using assms(1) by (simp add: input_ids)
  have i: "i < length (input_array cs)"
    using assms(2) by simp
  from registered_distinct[OF d i] assms(2) show ?thesis
    by (simp add: registered_state_def input_id_at)
qed

lemma input_map_Some:
  assumes "commentMap (registered_state (input_heap cs) (input_array cs)) k = Some n"
  shows "\<exists>i<length cs. n = length cs + i \<and> comment_id (cs ! i) = k"
proof -
  from assms have "map_of (registered (input_heap cs) (input_array cs)) k = Some n"
    by (simp add: registered_state_def)
  from registered_Some[OF this]
  have n: "length cs \<le> n" "n < length cs + length cs" 
    and k: "id_at (input_heap cs) (input_array cs ! (n - length cs)) = k"
    by simp_all
  from n k have "comment_id (cs ! (n - length cs)) = k"
    by (simp add: input_id_at)
  with n show ?thesis
    by (intro exI[of _ "n - length cs"]) simp
qed

lemma input_node_at:
  assumes "distinct (map comment_id cs)" and "a < length cs"
  shows "node_at (commentMap (registered_state (input_heap cs) (input_array cs)))
           (heap (registered_state (input_heap cs) (input_array cs))) a = length cs + a"
proof -
  have "id_at (heap (registered_state (input_heap cs) (input_array cs))) a = comment_id (cs ! a)"
    using assms(2) input_registered_props[OF assms(2)] by (simp add: id_at_def)
  then show ?thesis
    by (simp add: node_at_def input_map_distinct[OF assms])
qed

lemma input_target:
  assumes "distinct (map comment_id cs)" and "a < length cs" and "i < length cs"
  shows "target (commentMap (registered_state (input_heap cs) (input_array cs)))
           (heap (registered_state (input_heap cs) (input_array cs))) a = Some (length cs + i)
         \<longleftrightarrow> reply_parent (cs ! a) = Some (comment_id (cs ! i))"
proof (cases "reply_parent (cs ! a)")
  case None
  then show ?thesis
    by (simp add: target_def input_registered_props[OF assms(2)])
next
  case (Some pid)
  have "commentMap (registered_state (input_heap cs) (input_array cs)) pid = Some (length cs + i)
        \<longleftrightarrow> pid = comment_id (cs ! i)"
    using input_map_Some[of cs pid "length cs + i"] input_map_distinct[OF assms(1,3)]
    by auto
  with Some show ?thesis
    by (simp add: target_def input_registered_props[OF assms(2)])
qed

lemma input_children:
  assumes "distinct (map comment_id cs)" and "i < length cs"
  shows "children (commentMap (registered_state (input_heap cs) (input_array cs)))
           (heap (registered_state (input_heap cs) (input_array cs))) (input_array cs) (length cs + i)
         = map (\<lambda>j. length cs + j) (reply_positions cs (comment_id (cs ! i)))"
proof -
  have f: "filter (\<lambda>a. target (commentMap (registered_state (input_heap cs) (input_array cs)))
           (heap (registered_state (input_heap cs) (input_array cs))) a = Some (length cs + i))
           (input_array cs) = reply_positions cs (comment_id (cs ! i))"
    unfolding reply_positions_def
    by (rule filter_cong) (simp_all add: input_target[OF assms(1) _ assms(2)])
  have "\<forall>a\<in>set (reply_positions cs (comment_id (cs ! i))). a < length cs"
    by (simp add: reply_positions_def)
  then show ?thesis
    unfolding children_def f
    by (intro map_cong) (simp_all add: input_node_at[OF assms(1)])
qed

lemma input_new_roots:
  assumes "distinct (map comment_id cs)"
  shows "new_roots (commentMap (registered_state (input_heap cs) (input_array cs)))
           (heap (registered_state (input_heap cs) (input_array cs))) (input_array cs)
         = map (\<lambda>j. length cs + j) (root_positions cs)"
proof -
  have f: "filter (\<lambda>a. reply_parent (props (heap (registered_state (input_heap cs) (input_array cs)) ! a)) = None)
           (input_array cs) = root_positions cs"
    unfolding root_positions_def
    by (rule filter_cong) (simp_all add: input_registered_props)
  have "\<forall>a\<in>set (root_positions cs). a < length cs"
    by (simp add: root_positions_def)
  then show ?thesis
    unfolding new_roots_def f
    by (intro map_cong) (simp_all add: input_node_at[OF assms(1)])
qed

lemma buildCommentTree_input: "buildCommentTree (input_heap cs) (input_array cs) = Inr (built cs)"
  unfolding built_def by (rule buildCommentTree_closed[OF input_wf])

lemma built_length: "length (heap (built cs)) = length cs + length cs"
  by (simp add: built_def registered_state_def)

lemma built_roots:
  "distinct (map comment_id cs) \<Longrightarrow>
   rootComments (built cs) = map (\<lambda>j. length cs + j) (root_positions cs)"
  by (simp add: built_def input_new_roots) (simp add: registered_state_def)

lemma built_node_distinct:
  assumes "distinct (map comment_id cs)" and "i < length cs"
  shows "heap (built cs) ! (length cs + i)
         = \<lparr>props = cs ! i,
            replies = Some (map (\<lambda>j. length cs + j) (reply_positions cs (comment_id (cs ! i))))\<rparr>"
proof -
  have i: "i < length (input_array cs)"
    using assms(2) by simp
  from built_node[OF input_wf i] assms(2) show ?thesis
    unfolding built_def
    by (simp add: input_children[OF assms])
qed

lemma built_input:
  assumes "a < length cs"
  shows "heap (built cs) ! a = \<lparr>props = cs ! a, replies = None\<rparr>"
proof -
  have "take (length (input_heap cs)) (heap (built cs)) ! a = input_heap cs ! a"
    unfolding built_def by (simp only: built_input_unchanged[OF input_wf])
  with assms show ?thesis by simp
qed

subsection \<open>Claim C10: the input is not mutated\<close>

text \<open>
  C10. Let the array hold addresses of objects of the heap. Then \<open>buildCommentTree\<close>
  returns, and every object that was in the heap before the call, so every comment record
  of the input, is unchanged afterwards (the array itself is only read). The first pass
  adds one new object per array element, the element's clone with \<open>replies\<close> set to the
  empty array; in the final heap these new objects still carry the comments'
  properties, and every address in \<open>rootComments\<close> and in the \<open>replies\<close> of a clone
  is the address of a clone: children are appended to clones only.
\<close>

theorem buildCommentTree_input_unchanged:
  assumes "\<forall>a\<in>set commentList. a < length h"
  shows "\<exists>s1 s.
      forEach register_comment commentList \<lparr>heap = h, commentMap = Map.empty, rootComments = []\<rparr> = Inr s1
    \<and> heap s1 = h @ map (\<lambda>a. (h ! a)\<lparr>replies := Some []\<rparr>) commentList
    \<and> buildCommentTree h commentList = Inr s
    \<and> take (length h) (heap s) = h
    \<and> length (heap s) = length h + length commentList
    \<and> (\<forall>i<length commentList.
          props (heap s ! (length h + i)) = props (h ! (commentList ! i)) \<and>
          replies (heap s ! (length h + i)) \<noteq> None)
    \<and> (\<forall>r\<in>set (rootComments s). length h \<le> r \<and> r < length (heap s))
    \<and> (\<forall>i<length commentList. \<forall>rs. replies (heap s ! (length h + i)) = Some rs \<longrightarrow>
          (\<forall>r\<in>set rs. length h \<le> r \<and> r < length (heap s)))"
proof -
  let ?s1 = "registered_state h commentList"
  let ?s = "attached ?s1 commentList"
  have len: "length (heap ?s) = length h + length commentList"
    by (simp add: registered_state_def)
  have 1: "forEach register_comment commentList \<lparr>heap = h, commentMap = Map.empty, rootComments = []\<rparr> = Inr ?s1"
    by (rule first_pass[OF assms])
  have 2: "heap ?s1 = h @ map (\<lambda>a. (h ! a)\<lparr>replies := Some []\<rparr>) commentList"
    by (simp add: registered_state_def clone_def)
  have 3: "buildCommentTree h commentList = Inr ?s"
    by (rule buildCommentTree_closed[OF assms])
  have 4: "take (length h) (heap ?s) = h"
    by (rule built_input_unchanged[OF assms])
  have 6: "\<forall>i<length commentList.
          props (heap ?s ! (length h + i)) = props (h ! (commentList ! i)) \<and>
          replies (heap ?s ! (length h + i)) \<noteq> None"
    by (simp add: built_node[OF assms])
  have 7: "\<forall>r\<in>set (rootComments ?s). length h \<le> r \<and> r < length (heap ?s)"
    using built_roots_fresh[OF assms] len by simp
  have 8: "\<forall>i<length commentList. \<forall>rs. replies (heap ?s ! (length h + i)) = Some rs \<longrightarrow>
          (\<forall>r\<in>set rs. length h \<le> r \<and> r < length (heap ?s))"
  proof (intro allI impI ballI)
    fix i rs r
    assume i: "i < length commentList" and rs: "replies (heap ?s ! (length h + i)) = Some rs"
      and r: "r \<in> set rs"
    from rs have "rs = children (commentMap ?s1) (heap ?s1) commentList (length h + i)"
      unfolding built_node[OF assms i] by simp
    with r built_children_fresh[OF assms, of r "length h + i"] len
    show "length h \<le> r \<and> r < length (heap ?s)" by simp
  qed
  show ?thesis
    using 1 2 3 4 len 6 7 8 by blast
qed

lemma thread_example_built:
  "(case buildCommentTree (input_heap thread_example) (input_array thread_example) of
      Inl e \<Rightarrow> None | Inr s \<Rightarrow> Some (heap s, rootComments s)) =
     Some (input_heap thread_example @
            [\<lparr>props = mk_comment 1 None ''first'', replies = Some [5]\<rparr>,
             \<lparr>props = mk_comment 2 (Some 1) ''reply'', replies = Some [7]\<rparr>,
             \<lparr>props = mk_comment 3 None ''second'', replies = Some []\<rparr>,
             \<lparr>props = mk_comment 4 (Some 2) ''reply to reply'', replies = Some []\<rparr>],
           [4, 6])"
  by code_simp

lemma thread_example_forest:
  "comment_forest thread_example =
     Some [CommentNode (mk_comment 1 None ''first'')
             [CommentNode (mk_comment 2 (Some 1) ''reply'')
                [CommentNode (mk_comment 4 (Some 2) ''reply to reply'') []]],
           CommentNode (mk_comment 3 None ''second'') []]"
  by code_simp

theorem buildCommentTree_input_unchanged_witness:
  "set (input_array thread_example) \<subseteq> {..<length (input_heap thread_example)}
   \<and> (\<exists>s. buildCommentTree (input_heap thread_example) (input_array thread_example) = Inr s
        \<and> take (length (input_heap thread_example)) (heap s) = input_heap thread_example)"
proof -
  have wf: "\<forall>a\<in>set (input_array thread_example). a < length (input_heap thread_example)"
    by simp
  have sub: "set (input_array thread_example) \<subseteq> {..<length (input_heap thread_example)}"
    by simp
  from buildCommentTree_input_unchanged[OF wf] sub show ?thesis
    by blast
qed

lemma built_replies_cases:
  assumes "distinct (map comment_id cs)" and "p < length (heap (built cs))"
    and "replies (heap (built cs) ! p) = Some rs"
  shows "\<exists>i<length cs. p = length cs + i \<and>
           rs = map (\<lambda>j. length cs + j) (reply_positions cs (comment_id (cs ! i)))"
proof (cases "p < length cs")
  case True
  with assms(3) show ?thesis by (simp add: built_input)
next
  case False
  with assms(2) have i: "p - length cs < length cs" and p: "p = length cs + (p - length cs)"
    by (simp_all add: built_length)
  from assms(3) built_node_distinct[OF assms(1) i] p
  have "rs = map (\<lambda>j. length cs + j) (reply_positions cs (comment_id (cs ! (p - length cs))))"
    by simp
  with i p show ?thesis by blast
qed

subsection \<open>Claim C2: roots and children\<close>

text \<open>
  C2, as the code has it. For a list with unique ids: the roots are the nodes of the
  comments whose parent id is \<open>null\<close> or 0 (the code tests truthiness), in list order;
  the \<open>replies\<close> of the node of a comment are the nodes of the comments whose parent id
  is that comment's id and is not 0, in list order. So a comment with \<open>null\<close> parent is
  a root, and a comment whose non-zero parent id is the id of a comment in the list is a
  direct child of that comment's node and no root. The list with ids 1, 2, 3, 4 and
  parents \<open>null\<close>, 1, \<open>null\<close>, 2 builds the forest 1 [2 [4]], 3.
\<close>

theorem buildCommentTree_placement:
  assumes "distinct (map comment_id cs)"
  shows "\<exists>s. buildCommentTree (input_heap cs) (input_array cs) = Inr s
     \<and> rootComments s =
         map (\<lambda>j. length cs + j) (filter (\<lambda>j. reply_parent (cs ! j) = None) [0..<length cs])
     \<and> (\<forall>i<length cs. heap s ! (length cs + i) =
           \<lparr>props = cs ! i,
            replies = Some (map (\<lambda>j. length cs + j)
              (filter (\<lambda>j. reply_parent (cs ! j) = Some (comment_id (cs ! i))) [0..<length cs]))\<rparr>)
     \<and> (\<forall>j<length cs. parent_comment_id (cs ! j) = None \<longrightarrow>
           length cs + j \<in> set (rootComments s))
     \<and> (\<forall>i<length cs. \<forall>j<length cs.
           parent_comment_id (cs ! j) = Some (comment_id (cs ! i)) \<and> comment_id (cs ! i) \<noteq> 0 \<longrightarrow>
           (\<exists>rs. replies (heap s ! (length cs + i)) = Some rs \<and> length cs + j \<in> set rs) \<and>
           length cs + j \<notin> set (rootComments s))
     \<and> comment_forest thread_example =
         Some [CommentNode (mk_comment 1 None ''first'')
                 [CommentNode (mk_comment 2 (Some 1) ''reply'')
                    [CommentNode (mk_comment 4 (Some 2) ''reply to reply'') []]],
               CommentNode (mk_comment 3 None ''second'') []]"
proof -
  let ?s = "built cs"
  have 1: "buildCommentTree (input_heap cs) (input_array cs) = Inr ?s"
    by (rule buildCommentTree_input)
  have 2: "rootComments ?s =
         map (\<lambda>j. length cs + j) (filter (\<lambda>j. reply_parent (cs ! j) = None) [0..<length cs])"
    using built_roots[OF assms] by (simp add: root_positions_def input_array_def)
  have 3: "\<forall>i<length cs. heap ?s ! (length cs + i) =
           \<lparr>props = cs ! i,
            replies = Some (map (\<lambda>j. length cs + j)
              (filter (\<lambda>j. reply_parent (cs ! j) = Some (comment_id (cs ! i))) [0..<length cs]))\<rparr>"
    using built_node_distinct[OF assms] by (simp add: reply_positions_def input_array_def)
  have 4: "\<forall>j<length cs. parent_comment_id (cs ! j) = None \<longrightarrow>
           length cs + j \<in> set (rootComments ?s)"
    unfolding 2 by (simp add: reply_parent_def)
  have 5: "\<forall>i<length cs. \<forall>j<length cs.
           parent_comment_id (cs ! j) = Some (comment_id (cs ! i)) \<and> comment_id (cs ! i) \<noteq> 0 \<longrightarrow>
           (\<exists>rs. replies (heap ?s ! (length cs + i)) = Some rs \<and> length cs + j \<in> set rs) \<and>
           length cs + j \<notin> set (rootComments ?s)"
  proof (intro allI impI)
    fix i j
    assume i: "i < length cs" and j: "j < length cs"
      and par: "parent_comment_id (cs ! j) = Some (comment_id (cs ! i)) \<and> comment_id (cs ! i) \<noteq> 0"
    then have rp: "reply_parent (cs ! j) = Some (comment_id (cs ! i))"
      by (simp add: reply_parent_def)
    from 3 i have "replies (heap ?s ! (length cs + i)) =
        Some (map (\<lambda>j. length cs + j)
              (filter (\<lambda>j. reply_parent (cs ! j) = Some (comment_id (cs ! i))) [0..<length cs]))"
      by simp
    moreover have "length cs + j \<in> set (map (\<lambda>j. length cs + j)
              (filter (\<lambda>j. reply_parent (cs ! j) = Some (comment_id (cs ! i))) [0..<length cs]))"
      using j rp by simp
    moreover have "length cs + j \<notin> set (rootComments ?s)"
      unfolding 2 using rp by auto
    ultimately show "(\<exists>rs. replies (heap ?s ! (length cs + i)) = Some rs \<and> length cs + j \<in> set rs) \<and>
           length cs + j \<notin> set (rootComments ?s)"
      by blast
  qed
  show ?thesis
    using 1 2 3 4 5 thread_example_forest by blast
qed

theorem buildCommentTree_placement_witness:
  "distinct (map comment_id thread_example)
   \<and> (\<exists>s. buildCommentTree (input_heap thread_example) (input_array thread_example) = Inr s
        \<and> rootComments s = [4, 6]
        \<and> heap s ! 5 = \<lparr>props = mk_comment 2 (Some 1) ''reply'', replies = Some [7]\<rparr>)"
proof -
  have d: "distinct (map comment_id thread_example)"
    by (simp add: thread_example_def mk_comment_def)
  from buildCommentTree_placement[OF d] obtain s where
    s: "buildCommentTree (input_heap thread_example) (input_array thread_example) = Inr s"
    and r: "rootComments s = map (\<lambda>j. length thread_example + j)
              (filter (\<lambda>j. reply_parent (thread_example ! j) = None) [0..<length thread_example])"
    and n: "\<forall>i<length thread_example. heap s ! (length thread_example + i) =
           \<lparr>props = thread_example ! i,
            replies = Some (map (\<lambda>j. length thread_example + j)
              (filter (\<lambda>j. reply_parent (thread_example ! j) = Some (comment_id (thread_example ! i)))
                 [0..<length thread_example]))\<rparr>"
    by blast
  have len: "length thread_example = 4"
    by (simp add: thread_example_def)
  have r': "rootComments s = [4, 6]"
    unfolding r len by (simp add: thread_example_def mk_comment_def reply_parent_def upt_rec)
  have n': "heap s ! 5 = \<lparr>props = mk_comment 2 (Some 1) ''reply'', replies = Some [7]\<rparr>"
    using n[rule_format, of 1] unfolding len
    by (simp add: thread_example_def mk_comment_def reply_parent_def upt_rec)
  from d s r' n' show ?thesis by blast
qed

text \<open>
  The claim as stated, for every parent id that matches an id of the list, fails for the
  id 0: a comment with parent id 0 is placed as a root although a comment with id 0 is
  in the list.
\<close>

theorem zero_parent_counterexample:
  "comment_forest [mk_comment 0 None ''first'', mk_comment 5 (Some 0) ''reply''] =
     Some [CommentNode (mk_comment 0 None ''first'') [],
           CommentNode (mk_comment 5 (Some 0) ''reply'') []]"
  by code_simp

subsection \<open>Claim C1: orphans\<close>

text \<open>
  C1, as the code has it. Building never fails, whatever the list. A comment whose
  parent id passes the truthiness test and is the id of no comment in the list is left
  out of the forest: for a list with unique ids its node exists (a clone of the
  comment), but it is not a root and it is in the \<open>replies\<close> of no object, so nothing
  that is rendered leads to it.
\<close>

theorem buildCommentTree_orphans:
  "(\<exists>s. buildCommentTree (input_heap cs) (input_array cs) = Inr s)
   \<and> (distinct (map comment_id cs) \<longrightarrow>
        (\<exists>s. buildCommentTree (input_heap cs) (input_array cs) = Inr s \<and>
          (\<forall>i<length cs. \<forall>pid.
             reply_parent (cs ! i) = Some pid \<and> pid \<notin> comment_id ` set cs \<longrightarrow>
               props (heap s ! (length cs + i)) = cs ! i \<and>
               length cs + i \<notin> set (rootComments s) \<and>
               (\<forall>p<length (heap s). \<forall>rs. replies (heap s ! p) = Some rs \<longrightarrow>
                  length cs + i \<notin> set rs))))"
proof (intro conjI impI)
  show "\<exists>s. buildCommentTree (input_heap cs) (input_array cs) = Inr s"
    using buildCommentTree_input by blast
next
  assume d: "distinct (map comment_id cs)"
  have "props (heap (built cs) ! (length cs + i)) = cs ! i \<and>
        length cs + i \<notin> set (rootComments (built cs)) \<and>
        (\<forall>p<length (heap (built cs)). \<forall>rs. replies (heap (built cs) ! p) = Some rs \<longrightarrow>
            length cs + i \<notin> set rs)"
    if i: "i < length cs" and o: "reply_parent (cs ! i) = Some pid \<and> pid \<notin> comment_id ` set cs"
    for i pid
  proof (intro conjI allI impI)
    show "props (heap (built cs) ! (length cs + i)) = cs ! i"
      by (simp add: built_node_distinct[OF d i])
    show "length cs + i \<notin> set (rootComments (built cs))"
      using o by (auto simp: built_roots[OF d] root_positions_def)
  next
    fix p rs
    assume p: "p < length (heap (built cs))" and rs: "replies (heap (built cs) ! p) = Some rs"
    from built_replies_cases[OF d p rs] obtain i' where
      i': "i' < length cs" and rs': "rs = map (\<lambda>j. length cs + j) (reply_positions cs (comment_id (cs ! i')))"
      by blast
    show "length cs + i \<notin> set rs"
    proof
      assume "length cs + i \<in> set rs"
      then have "reply_parent (cs ! i) = Some (comment_id (cs ! i'))"
        unfolding rs' by (auto simp: reply_positions_def)
      with o i' show False by auto
    qed
  qed
  then show "\<exists>s. buildCommentTree (input_heap cs) (input_array cs) = Inr s \<and>
          (\<forall>i<length cs. \<forall>pid.
             reply_parent (cs ! i) = Some pid \<and> pid \<notin> comment_id ` set cs \<longrightarrow>
               props (heap s ! (length cs + i)) = cs ! i \<and>
               length cs + i \<notin> set (rootComments s) \<and>
               (\<forall>p<length (heap s). \<forall>rs. replies (heap s ! p) = Some rs \<longrightarrow>
                  length cs + i \<notin> set rs))"
    using buildCommentTree_input[of cs] by blast
qed

text \<open>
  The claim as stated, that an orphan appears as a root, fails: of a root and a reply to
  a comment that is not in the list, the forest holds the root only.
\<close>

theorem orphan_dropped_counterexample:
  "comment_forest orphan_example = Some [CommentNode (mk_comment 1 None ''first'') []]"
  by code_simp

theorem buildCommentTree_orphans_witness:
  "distinct (map comment_id orphan_example)
   \<and> (1::nat) < length orphan_example
   \<and> reply_parent (orphan_example ! 1) = Some 99 \<and> 99 \<notin> comment_id ` set orphan_example
   \<and> (\<exists>s. buildCommentTree (input_heap orphan_example) (input_array orphan_example) = Inr s
         \<and> length orphan_example + 1 \<notin> set (rootComments s))"
proof -
  have d: "distinct (map comment_id orphan_example)"
    and l: "(1::nat) < length orphan_example"
    and o: "reply_parent (orphan_example ! 1) = Some 99 \<and> 99 \<notin> comment_id ` set orphan_example"
    by (simp_all add: orphan_example_def mk_comment_def reply_parent_def)
  from buildCommentTree_orphans[of orphan_example] d l o show ?thesis
    by blast
qed

subsection \<open>Rendering terminates for unique ids\<close>







subsection \<open>Claim C4: termination of building and rendering\<close>




text \<open>
  Unique ids are needed. When two comments share an id, the later clone takes the map
  entry over; here it becomes a root and a reply to itself, and rendering never returns,
  whatever the fuel.
\<close>

lemma duplicate_example_built:
  "(case buildCommentTree (input_heap duplicate_example) (input_array duplicate_example) of
      Inl e \<Rightarrow> None | Inr s \<Rightarrow> Some (heap s, rootComments s)) =
   Some (input_heap duplicate_example @
           [\<lparr>props = mk_comment 1 None ''a'', replies = Some []\<rparr>,
            \<lparr>props = mk_comment 1 (Some 1) ''b'', replies = Some [3]\<rparr>],
         [3])"
  by code_simp

lemma self_reply_never_rendered:
  "replies (h ! a) = Some [a] \<Longrightarrow> ThreadedComment fuel h a depth = None"
  by (induction fuel arbitrary: depth) simp_all

lemma duplicate_ids_diverge: "render_comments fuel duplicate_example = None"
proof -
  from duplicate_example_built obtain s where
    s: "buildCommentTree (input_heap duplicate_example) (input_array duplicate_example) = Inr s"
    and h: "heap s = input_heap duplicate_example @
           [\<lparr>props = mk_comment 1 None ''a'', replies = Some []\<rparr>,
            \<lparr>props = mk_comment 1 (Some 1) ''b'', replies = Some [3]\<rparr>]"
    and r: "rootComments s = [3]"
    by (auto split: sum.splits)
  have "replies (heap s ! 3) = Some [3]"
    unfolding h by (simp add: duplicate_example_def input_heap_def)
  from self_reply_never_rendered[OF this] show ?thesis
    by (simp add: render_comments_def s render_thread_def r)
qed

end
